theory Spec2Isabelle
  imports Complex_Main "HOL-Library.AList" "HOL-Library.Sublist"
begin

section \<open>Data model\<close>

text \<open>
  The script \<^verbatim>\<open>dynamodb_cleanup_script.js\<close> scans a DynamoDB table, keeps the items that
  carry at least one attribute of a configured list, and removes those attributes item by
  item, in batches, retrying throttled requests with exponential backoff.

  A JavaScript object is an association list from property names to values; a property is
  read with \<open>map_of\<close> and written with \<open>AList.update\<close>, which keeps the insertion order
  as the object does. Items are the plain data objects that \<^verbatim>\<open>unmarshall\<close> builds: their
  prototype is \<^verbatim>\<open>Object.prototype\<close> and none of their values is a function.
\<close>

datatype js_value =
    Undefined
  | Null
  | Bool bool
  | Number real
  | String string
  | Array "js_value list"
  | Object "(string \<times> js_value) list"

type_synonym js_object = "(string \<times> js_value) list"

text \<open>\<^verbatim>\<open>item[name]\<close>: the value of the property, \<^verbatim>\<open>undefined\<close> when it is absent.\<close>

definition get_prop :: "js_object \<Rightarrow> string \<Rightarrow> js_value" where
  "get_prop item name = (case map_of item name of Some v \<Rightarrow> v | None \<Rightarrow> Undefined)"

text \<open>The names of the fields an item carries.\<close>

definition field_names :: "js_object \<Rightarrow> string set" where
  "field_names item = fst ` set item"

text \<open>Truthiness, as \<^verbatim>\<open>if (v)\<close> and \<^verbatim>\<open>a && b\<close> test it.\<close>

fun truthy :: "js_value \<Rightarrow> bool" where
  "truthy Undefined = False"
| "truthy Null = False"
| "truthy (Bool b) = b"
| "truthy (Number x) = (x \<noteq> 0)"
| "truthy (String s) = (s \<noteq> [])"
| "truthy (Array _) = True"
| "truthy (Object _) = True"

text \<open>An error object, as thrown by the SDK: the code reads its \<^verbatim>\<open>name\<close> and \<^verbatim>\<open>message\<close>.\<close>

datatype js_error = Error (name: string) (message: string)

text \<open>
  \<^verbatim>\<open>item.hasOwnProperty(attr)\<close>. The method is looked up on the item first: when the item
  carries a property of its own that is named \<^verbatim>\<open>hasOwnProperty\<close>, that property is what
  is called, and since it is a piece of data and not a function the call throws a
  \<^verbatim>\<open>TypeError\<close>. Otherwise the method of \<^verbatim>\<open>Object.prototype\<close> answers.
\<close>

definition hasOwnProperty :: "js_object \<Rightarrow> string \<Rightarrow> js_error + bool" where
  "hasOwnProperty item attr =
     (if map_of item ''hasOwnProperty'' \<noteq> None
      then Inl (Error ''TypeError'' ''item.hasOwnProperty is not a function'')
      else Inr (map_of item attr \<noteq> None))"

text \<open>
  The configuration read from the environment (lines 6 to 12). \<^verbatim>\<open>parseInt(...) || d\<close>
  yields an integer that is not zero; it may be negative.
\<close>

record config =
  BATCH_SIZE :: int
  MAX_RETRIES :: int
  INITIAL_DELAY :: int

record keySchema =
  partitionKey :: string
  sortKey :: "string option"

text \<open>The parameters of a \<^verbatim>\<open>ScanCommand\<close> and the part of its response that is read.\<close>

record 'k scan_params =
  scan_TableName :: string
  ExclusiveStartKey :: "'k option"

record ('r, 'k) scan_response =
  Items :: "'r list option"
  LastEvaluatedKey :: "'k option"

text \<open>What \<^verbatim>\<open>createUpdateExpression\<close> returns when it does not return \<^verbatim>\<open>null\<close>.\<close>

record update_expression =
  UpdateExpression :: string
  ExpressionAttributeNames :: "(string \<times> string) list"

text \<open>
  The parameters of an \<^verbatim>\<open>UpdateItemCommand\<close>. Spreading \<^verbatim>\<open>null\<close> adds no property, so
  the two properties of the update expression are present together or not at all.
\<close>

record 'm update_params =
  update_TableName :: string
  Key :: 'm
  update_spread :: "update_expression option"
  ReturnValues :: string

section \<open>The environment\<close>

text \<open>
  The store, the SDK and the random number generator are outside the repository. They are
  a state \<open>'s\<close> of their own and four operations on it: \<^verbatim>\<open>dynamoClient.send\<close> for each of
  the two commands, which returns a response or throws, \<^verbatim>\<open>Math.random\<close>, and the two
  conversions of \<^verbatim>\<open>@aws-sdk/util-dynamodb\<close>, of which \<^verbatim>\<open>marshall\<close> may throw.
\<close>

record ('s, 'r, 'k, 'm) client =
  send_scan :: "'k scan_params \<Rightarrow> 's \<Rightarrow> (js_error + ('r, 'k) scan_response) \<times> 's"
  send_update :: "'m update_params \<Rightarrow> 's \<Rightarrow> (js_error + unit) \<times> 's"
  random :: "'s \<Rightarrow> real \<times> 's"
  unmarshall :: "'r \<Rightarrow> js_object"
  marshall :: "js_object \<Rightarrow> js_error + 'm"

text \<open>
  What the program does to its environment is recorded in order: each request it sends and
  each sleep it takes, with the milliseconds asked for. Console output is not recorded.
\<close>

datatype ('k, 'm) event =
    ScanSent "'k scan_params"
  | UpdateSent "'m update_params"
  | Delay real

record ('s, 'k, 'm) world =
  ext :: 's
  trace :: "('k, 'm) event list"

text \<open>\<^verbatim>\<open>await delay(ms)\<close>\<close>

definition delay :: "real \<Rightarrow> ('s, 'k, 'm) world \<Rightarrow> ('s, 'k, 'm) world" where
  "delay ms w = w\<lparr>trace := trace w @ [Delay ms]\<rparr>"

text \<open>\<^verbatim>\<open>Math.random()\<close>\<close>

definition Math_random ::
  "('s, 'r, 'k, 'm) client \<Rightarrow> ('s, 'k, 'm) world \<Rightarrow> real \<times> ('s, 'k, 'm) world" where
  "Math_random c w = (case random c (ext w) of (r, s) \<Rightarrow> (r, w\<lparr>ext := s\<rparr>))"

text \<open>\<^verbatim>\<open>await dynamoClient.send(new ScanCommand(params))\<close>\<close>

definition sendScan ::
  "('s, 'r, 'k, 'm) client \<Rightarrow> 'k scan_params \<Rightarrow> ('s, 'k, 'm) world \<Rightarrow>
     (js_error + ('r, 'k) scan_response) \<times> ('s, 'k, 'm) world" where
  "sendScan c params w =
     (case send_scan c params (ext w) of
        (res, s) \<Rightarrow> (res, w\<lparr>ext := s, trace := trace w @ [ScanSent params]\<rparr>))"

text \<open>\<^verbatim>\<open>await dynamoClient.send(new UpdateItemCommand(params))\<close>\<close>

definition sendUpdate ::
  "('s, 'r, 'k, 'm) client \<Rightarrow> 'm update_params \<Rightarrow> ('s, 'k, 'm) world \<Rightarrow>
     (js_error + unit) \<times> ('s, 'k, 'm) world" where
  "sendUpdate c params w =
     (case send_update c params (ext w) of
        (res, s) \<Rightarrow> (res, w\<lparr>ext := s, trace := trace w @ [UpdateSent params]\<rparr>))"

text \<open>The test on the error's name that both retry loops make (lines 61-62 and 126-127).\<close>

definition isThrottle :: "js_error \<Rightarrow> bool" where
  "isThrottle error =
     (name error = ''ProvisionedThroughputExceededException'' \<or>
      name error = ''ThrottlingException'')"

section \<open>Backoff\<close>

text \<open>
  \<^verbatim>\<open>calculateBackoffDelay\<close> (lines 24-26). The value drawn by \<^verbatim>\<open>Math.random()\<close> is the
  first argument. JavaScript numbers are taken as reals.
\<close>

definition calculateBackoffDelay :: "real \<Rightarrow> nat \<Rightarrow> real \<Rightarrow> real" where
  "calculateBackoffDelay rnd attempt baseDelay =
     min (baseDelay * 2 ^ attempt + rnd * 1000) 30000"

section \<open>The scanner\<close>

text \<open>
  \<^verbatim>\<open>scanAllItems\<close> (lines 29-73). One call of \<open>scan_loop\<close> is one pass through the body of
  the \<^verbatim>\<open>do ... while (lastEvaluatedKey)\<close> loop, with the loop's variables as arguments.
  The \<^verbatim>\<open>continue\<close> of the handler goes to the loop's condition, which reads the
  \<^verbatim>\<open>lastEvaluatedKey\<close> of before the request, since the assignment of line 53 was not
  reached. The loop has no bound: a run that never leaves it is \<open>None\<close>. A run that throws
  is \<open>Some (Inl error, _)\<close>. The counter \<^verbatim>\<open>scanCount\<close> is only printed and is left out;
  \<^verbatim>\<open>unmarshall\<close> is taken not to throw, so that the errors the handler sees are those of
  \<^verbatim>\<open>send\<close>.
\<close>

partial_function (option) scan_loop ::
  "config \<Rightarrow> ('s, 'r, 'k, 'm) client \<Rightarrow> string \<Rightarrow> js_object list \<Rightarrow> 'k option \<Rightarrow>
     ('s, 'k, 'm) world \<Rightarrow> ((js_error + js_object list) \<times> ('s, 'k, 'm) world) option" where
  "scan_loop cfg c tableName items lastEvaluatedKey w =
     (case sendScan c \<lparr>scan_TableName = tableName, ExclusiveStartKey = lastEvaluatedKey\<rparr> w of
        (Inr response, w1) \<Rightarrow>
          (let items1 = (case Items response of
                           Some raw \<Rightarrow> items @ map (unmarshall c) raw
                         | None \<Rightarrow> items);
               lastEvaluatedKey1 = LastEvaluatedKey response;
               w2 = (if lastEvaluatedKey1 \<noteq> None then delay 50 w1 else w1)
           in if lastEvaluatedKey1 \<noteq> None
              then scan_loop cfg c tableName items1 lastEvaluatedKey1 w2
              else Some (Inr items1, w2))
      | (Inl error, w1) \<Rightarrow>
          (if isThrottle error then
             (case Math_random c w1 of
                (rnd, w2) \<Rightarrow>
                  (let w3 = delay (calculateBackoffDelay rnd 1 (real_of_int (INITIAL_DELAY cfg))) w2
                   in if lastEvaluatedKey \<noteq> None
                      then scan_loop cfg c tableName items lastEvaluatedKey w3
                      else Some (Inr items, w3)))
           else Some (Inl error, w1)))"

definition scanAllItems ::
  "config \<Rightarrow> ('s, 'r, 'k, 'm) client \<Rightarrow> string \<Rightarrow> ('s, 'k, 'm) world \<Rightarrow>
     ((js_error + js_object list) \<times> ('s, 'k, 'm) world) option" where
  "scanAllItems cfg c tableName w = scan_loop cfg c tableName [] None w"

section \<open>The change filter\<close>

text \<open>
  \<^verbatim>\<open>Array.prototype.some\<close> and \<^verbatim>\<open>Array.prototype.filter\<close> with a callback that may throw:
  the elements are visited in order, \<^verbatim>\<open>some\<close> stops at the first element the callback
  accepts, and the first error thrown by the callback is thrown by the call.
\<close>

fun js_some :: "('a \<Rightarrow> js_error + bool) \<Rightarrow> 'a list \<Rightarrow> js_error + bool" where
  "js_some f [] = Inr False"
| "js_some f (x # xs) =
     (case f x of
        Inl error \<Rightarrow> Inl error
      | Inr b \<Rightarrow> if b then Inr True else js_some f xs)"

fun js_filter :: "('a \<Rightarrow> js_error + bool) \<Rightarrow> 'a list \<Rightarrow> js_error + 'a list" where
  "js_filter f [] = Inr []"
| "js_filter f (x # xs) =
     (case f x of
        Inl error \<Rightarrow> Inl error
      | Inr b \<Rightarrow>
          (case js_filter f xs of
             Inl error \<Rightarrow> Inl error
           | Inr ys \<Rightarrow> Inr (if b then x # ys else ys)))"

text \<open>\<^verbatim>\<open>filterItemsWithAttributes\<close> (lines 81-85)\<close>

definition filterItemsWithAttributes ::
  "js_object list \<Rightarrow> string list \<Rightarrow> js_error + js_object list" where
  "filterItemsWithAttributes items attributesToRemove =
     js_filter (\<lambda>item. js_some (\<lambda>attr. hasOwnProperty item attr) attributesToRemove) items"

text \<open>A number in a template literal: its decimal digits.\<close>

definition digit :: "nat \<Rightarrow> char" where
  "digit d = ''0123456789'' ! d"

fun string_of_nat :: "nat \<Rightarrow> string" where
  "string_of_nat n =
     (if n < 10 then [digit n] else string_of_nat (n div 10) @ [digit (n mod 10)])"

declare string_of_nat.simps [simp del]

text \<open>\<^verbatim>\<open>Array.prototype.join\<close> on strings\<close>

fun join :: "string \<Rightarrow> string list \<Rightarrow> string" where
  "join sep [] = []"
| "join sep [x] = x"
| "join sep (x # y # ys) = x @ sep @ join sep (y # ys)"

text \<open>The placeholder \<^verbatim>\<open>`#attr${index}`\<close>\<close>

definition placeholder :: "nat \<Rightarrow> string" where
  "placeholder index = ''#attr'' @ string_of_nat index"

text \<open>
  \<^verbatim>\<open>createUpdateExpression\<close> (lines 88-106); \<open>Inr None\<close> is \<^verbatim>\<open>null\<close>, and \<open>Inl\<close> is the
  error thrown by the call of \<^verbatim>\<open>hasOwnProperty\<close> at line 89. The callbacks of \<^verbatim>\<open>map\<close> and
  \<^verbatim>\<open>forEach\<close> receive each element with its index.
\<close>

definition createUpdateExpression ::
  "string list \<Rightarrow> js_object \<Rightarrow> js_error + update_expression option" where
  "createUpdateExpression attributesToRemove item =
     (case js_filter (\<lambda>attr. hasOwnProperty item attr) attributesToRemove of
        Inl error \<Rightarrow> Inl error
      | Inr existingAttributes \<Rightarrow>
          if length existingAttributes = 0 then Inr None
          else
            (let removeExpression =
                   ''REMOVE '' @
                   join '', '' (map (\<lambda>(index, attr). placeholder index)
                                  (List.enumerate 0 existingAttributes));
                 expressionAttributeNames =
                   foldl (\<lambda>names (index, attr). AList.update (placeholder index) attr names)
                     [] (List.enumerate 0 existingAttributes)
             in Inr (Some \<lparr>UpdateExpression = removeExpression,
                           ExpressionAttributeNames = expressionAttributeNames\<rparr>)))"

section \<open>The retrying mutator\<close>

text \<open>
  The body of the \<^verbatim>\<open>try\<close> block of \<^verbatim>\<open>updateItemWithRetry\<close> (lines 114-122): building the
  parameters calls \<^verbatim>\<open>marshall\<close>, which may throw before anything is sent.
\<close>

definition try_update ::
  "('s, 'r, 'k, 'm) client \<Rightarrow> string \<Rightarrow> js_object \<Rightarrow> update_expression option \<Rightarrow>
     ('s, 'k, 'm) world \<Rightarrow> (js_error + unit) \<times> ('s, 'k, 'm) world" where
  "try_update c tableName key updateExpression w =
     (case marshall c key of
        Inl error \<Rightarrow> (Inl error, w)
      | Inr k \<Rightarrow>
          sendUpdate c \<lparr>update_TableName = tableName, Key = k,
                        update_spread = updateExpression, ReturnValues = ''NONE''\<rparr> w)"

text \<open>
  \<^verbatim>\<open>updateItemWithRetry\<close> (lines 109-143): the \<^verbatim>\<open>while (attempt < maxRetries)\<close> loop, with
  \<^verbatim>\<open>attempt\<close> as an argument. The function is \<^verbatim>\<open>async\<close>, so its result is a value or a
  thrown error: \<open>Inr\<close> or \<open>Inl\<close>.
\<close>

function updateItemWithRetry_loop ::
  "config \<Rightarrow> ('s, 'r, 'k, 'm) client \<Rightarrow> string \<Rightarrow> js_object \<Rightarrow> update_expression option \<Rightarrow>
     int \<Rightarrow> nat \<Rightarrow> ('s, 'k, 'm) world \<Rightarrow> (js_error + bool) \<times> ('s, 'k, 'm) world" where
  "updateItemWithRetry_loop cfg c tableName key updateExpression maxRetries attempt w =
     (if int attempt < maxRetries then
        (case try_update c tableName key updateExpression w of
           (Inr _, w1) \<Rightarrow> (Inr True, w1)
         | (Inl error, w1) \<Rightarrow>
             (if isThrottle error \<and> int attempt < maxRetries - 1 then
                (case Math_random c w1 of
                   (rnd, w2) \<Rightarrow>
                     (let backoffDelay =
                            calculateBackoffDelay rnd attempt (real_of_int (INITIAL_DELAY cfg))
                      in updateItemWithRetry_loop cfg c tableName key updateExpression maxRetries
                           (attempt + 1) (delay backoffDelay w2)))
              else (Inr False, w1)))
      else (Inr False, w))"
  by pat_completeness auto
termination
  by (relation "measure (\<lambda>(cfg, c, tableName, key, updateExpression, maxRetries, attempt, w).
                  nat (maxRetries - int attempt))") auto

declare updateItemWithRetry_loop.simps [simp del]

definition updateItemWithRetry ::
  "config \<Rightarrow> ('s, 'r, 'k, 'm) client \<Rightarrow> string \<Rightarrow> js_object \<Rightarrow> update_expression option \<Rightarrow>
     int \<Rightarrow> ('s, 'k, 'm) world \<Rightarrow> (js_error + bool) \<times> ('s, 'k, 'm) world" where
  "updateItemWithRetry cfg c tableName key updateExpression maxRetries w =
     updateItemWithRetry_loop cfg c tableName key updateExpression maxRetries 0 w"

section \<open>The batch scheduler\<close>

text \<open>\<^verbatim>\<open>Array.prototype.slice(start, end)\<close>, with its treatment of negative indices.\<close>

definition slice :: "'a list \<Rightarrow> int \<Rightarrow> int \<Rightarrow> 'a list" where
  "slice xs start end =
     (let len = int (length xs);
          k = (if start < 0 then max (len + start) 0 else min start len);
          final = (if end < 0 then max (len + end) 0 else min end len)
      in take (nat (final - k)) (drop (nat k) xs))"

text \<open>
  The grouping loop of \<^verbatim>\<open>processItemsInBatches\<close> (lines 147-152), with \<^verbatim>\<open>i\<close> and
  \<^verbatim>\<open>batches\<close> as arguments. With a negative batch size and an item to process it never
  ends: \<open>None\<close>.
\<close>

partial_function (option) make_batches ::
  "int \<Rightarrow> 'a list \<Rightarrow> int \<Rightarrow> 'a list list \<Rightarrow> 'a list list option" where
  "make_batches batchSize items i batches =
     (if i < int (length items)
      then make_batches batchSize items (i + batchSize)
             (batches @ [slice items i (i + batchSize)])
      else Some batches)"

text \<open>The key that the callback given to \<^verbatim>\<open>batch.map\<close> extracts (lines 166-169).\<close>

definition item_key :: "keySchema \<Rightarrow> js_object \<Rightarrow> js_object" where
  "item_key ks item =
     (let key0 = [(partitionKey ks, get_prop item (partitionKey ks))]
      in case sortKey ks of
           Some sk \<Rightarrow>
             if sk \<noteq> [] \<and> truthy (get_prop item sk)
             then AList.update sk (get_prop item sk) key0 else key0
         | None \<Rightarrow> key0)"

text \<open>
  The callbacks of one batch are \<^verbatim>\<open>async\<close> functions that run interleaved: each runs until
  it awaits, and is resumed later where it stopped. The promise of one item is in one of
  four states: its request of the given attempt has been sent and the outcome, which the
  store fixed when it received the request, has not been delivered yet; it sleeps after a
  throttle of the given attempt; or it is settled, resolved with the boolean of
  \<^verbatim>\<open>updateItemWithRetry\<close> or rejected with an error.
\<close>

datatype promise_state =
    Waiting nat "js_error + unit"
  | Sleeping nat
  | Resolved bool
  | Rejected js_error

record task =
  task_key :: js_object
  task_update :: "update_expression option"
  task_state :: promise_state

fun is_pending :: "promise_state \<Rightarrow> bool" where
  "is_pending (Waiting _ _) = True"
| "is_pending (Sleeping _) = True"
| "is_pending _ = False"

text \<open>
  The handler of \<^verbatim>\<open>updateItemWithRetry\<close> (lines 125-139), up to the \<^verbatim>\<open>await\<close> of the sleep
  or to the \<^verbatim>\<open>return\<close>.
\<close>

definition catch_update ::
  "config \<Rightarrow> ('s, 'r, 'k, 'm) client \<Rightarrow> int \<Rightarrow> nat \<Rightarrow> js_error \<Rightarrow> ('s, 'k, 'm) world \<Rightarrow>
     promise_state \<times> ('s, 'k, 'm) world" where
  "catch_update cfg c maxRetries attempt error w =
     (if isThrottle error \<and> int attempt < maxRetries - 1 then
        (case Math_random c w of
           (rnd, w2) \<Rightarrow>
             (let backoffDelay =
                    calculateBackoffDelay rnd attempt (real_of_int (INITIAL_DELAY cfg))
              in (Sleeping attempt, delay backoffDelay w2)))
      else (Resolved False, w))"

text \<open>
  The test of the \<^verbatim>\<open>while\<close> loop and the \<^verbatim>\<open>try\<close> block (lines 112-122), up to the
  \<^verbatim>\<open>await\<close> of \<^verbatim>\<open>send\<close>: the request is sent before the function is suspended.
\<close>

definition begin_attempt ::
  "config \<Rightarrow> ('s, 'r, 'k, 'm) client \<Rightarrow> string \<Rightarrow> js_object \<Rightarrow> update_expression option \<Rightarrow>
     int \<Rightarrow> nat \<Rightarrow> ('s, 'k, 'm) world \<Rightarrow> promise_state \<times> ('s, 'k, 'm) world" where
  "begin_attempt cfg c tableName key updateExpression maxRetries attempt w =
     (if int attempt < maxRetries then
        (case marshall c key of
           Inl error \<Rightarrow> catch_update cfg c maxRetries attempt error w
         | Inr k \<Rightarrow>
             (case sendUpdate c \<lparr>update_TableName = tableName, Key = k,
                                  update_spread = updateExpression,
                                  ReturnValues = ''NONE''\<rparr> w of
                (outcome, w1) \<Rightarrow> (Waiting attempt outcome, w1)))
      else (Resolved False, w))"

text \<open>
  A suspended call of \<^verbatim>\<open>updateItemWithRetry\<close> is resumed: the outcome of its request is
  delivered, or its sleep is over and it goes on with \<^verbatim>\<open>attempt++\<close> and the next pass of
  the loop.
\<close>

definition resume ::
  "config \<Rightarrow> ('s, 'r, 'k, 'm) client \<Rightarrow> string \<Rightarrow> js_object \<Rightarrow> update_expression option \<Rightarrow>
     int \<Rightarrow> promise_state \<Rightarrow> ('s, 'k, 'm) world \<Rightarrow> promise_state \<times> ('s, 'k, 'm) world" where
  "resume cfg c tableName key updateExpression maxRetries st w =
     (case st of
        Waiting attempt outcome \<Rightarrow>
          (case outcome of
             Inr _ \<Rightarrow> (Resolved True, w)
           | Inl error \<Rightarrow> catch_update cfg c maxRetries attempt error w)
      | Sleeping attempt \<Rightarrow>
          begin_attempt cfg c tableName key updateExpression maxRetries (attempt + 1) w
      | Resolved b \<Rightarrow> (Resolved b, w)
      | Rejected error \<Rightarrow> (Rejected error, w))"

text \<open>
  The callback given to \<^verbatim>\<open>batch.map\<close> (lines 164-176), for one item, up to its first
  \<^verbatim>\<open>await\<close>. \<^verbatim>\<open>createUpdateExpression\<close> is called outside any \<^verbatim>\<open>try\<close> block: when it
  throws, the promise of the item is rejected and nothing is sent for it.
\<close>

definition start_item ::
  "config \<Rightarrow> ('s, 'r, 'k, 'm) client \<Rightarrow> string \<Rightarrow> string list \<Rightarrow> keySchema \<Rightarrow> js_object \<Rightarrow>
     ('s, 'k, 'm) world \<Rightarrow> task \<times> ('s, 'k, 'm) world" where
  "start_item cfg c tableName attributesToRemove ks item w =
     (let key = item_key ks item
      in case createUpdateExpression attributesToRemove item of
           Inl error \<Rightarrow> (\<lparr>task_key = key, task_update = None, task_state = Rejected error\<rparr>, w)
         | Inr updateExpression \<Rightarrow>
             (case begin_attempt cfg c tableName key updateExpression (MAX_RETRIES cfg) 0 w of
                (st, w1) \<Rightarrow>
                  (\<lparr>task_key = key, task_update = updateExpression, task_state = st\<rparr>, w1)))"

text \<open>\<^verbatim>\<open>batch.map\<close> calls the callback for every item of the batch, in order.\<close>

fun start_all ::
  "config \<Rightarrow> ('s, 'r, 'k, 'm) client \<Rightarrow> string \<Rightarrow> string list \<Rightarrow> keySchema \<Rightarrow> js_object list \<Rightarrow>
     ('s, 'k, 'm) world \<Rightarrow> task list \<times> ('s, 'k, 'm) world" where
  "start_all cfg c tableName attributesToRemove ks [] w = ([], w)"
| "start_all cfg c tableName attributesToRemove ks (item # rest) w =
     (case start_item cfg c tableName attributesToRemove ks item w of
        (t, w1) \<Rightarrow>
          (case start_all cfg c tableName attributesToRemove ks rest w1 of
             (ts, w2) \<Rightarrow> (t # ts, w2)))"

text \<open>
  Which suspended call is resumed next depends on when replies arrive and timers fire. A
  schedule \<open>sched\<close> decides it: at step \<open>n\<close> it picks, by the number \<open>sched n\<close>, one of
  the items whose promise is pending. Every order of resumption is the order of some
  schedule.
\<close>

definition pending :: "task list \<Rightarrow> nat list" where
  "pending tasks = filter (\<lambda>i. is_pending (task_state (tasks ! i))) [0 ..< length tasks]"

definition pick :: "(nat \<Rightarrow> nat) \<Rightarrow> nat \<Rightarrow> nat list \<Rightarrow> nat" where
  "pick sched step ready = ready ! (sched step mod length ready)"

definition advance ::
  "config \<Rightarrow> ('s, 'r, 'k, 'm) client \<Rightarrow> string \<Rightarrow> task list \<Rightarrow> nat \<Rightarrow> ('s, 'k, 'm) world \<Rightarrow>
     task list \<times> ('s, 'k, 'm) world" where
  "advance cfg c tableName tasks i w =
     (let t = tasks ! i
      in case resume cfg c tableName (task_key t) (task_update t) (MAX_RETRIES cfg)
                (task_state t) w of
           (st, w1) \<Rightarrow> (tasks[i := t\<lparr>task_state := st\<rparr>], w1))"

text \<open>
  What is left of a pending promise: the passes of the loop it can still make, counted
  twice, plus two while a request is in flight and one while it sleeps.
\<close>

fun weight :: "int \<Rightarrow> promise_state \<Rightarrow> nat" where
  "weight maxRetries (Waiting attempt _) = 2 * nat (maxRetries - int attempt) + 2"
| "weight maxRetries (Sleeping attempt) = 2 * nat (maxRetries - int attempt) + 1"
| "weight maxRetries _ = 0"

definition total_weight :: "int \<Rightarrow> task list \<Rightarrow> nat" where
  "total_weight maxRetries tasks = sum_list (map (\<lambda>t. weight maxRetries (task_state t)) tasks)"

text \<open>The promises of a batch are resumed, one at a time, until all are settled.\<close>

function drain ::
  "(nat \<Rightarrow> nat) \<Rightarrow> config \<Rightarrow> ('s, 'r, 'k, 'm) client \<Rightarrow> string \<Rightarrow> task list \<Rightarrow> nat \<Rightarrow>
     ('s, 'k, 'm) world \<Rightarrow> task list \<times> nat \<times> ('s, 'k, 'm) world" where
  "drain sched cfg c tableName tasks step w =
     (if pending tasks = [] then (tasks, step, w)
      else
        (case advance cfg c tableName tasks (pick sched step (pending tasks)) w of
           (tasks1, w1) \<Rightarrow> drain sched cfg c tableName tasks1 (step + 1) w1))"
  by pat_completeness auto
termination
proof (relation "measure (\<lambda>(sched, cfg, c, tableName, tasks, step, w).
    total_weight (MAX_RETRIES cfg) tasks)", goal_cases)
  case 1
  show ?case by simp
next
  case (2 sched cfg c tableName tasks step w tasks1 w1)
  let ?M = "MAX_RETRIES cfg"
  let ?i = "pick sched step (pending tasks)"
  let ?t = "tasks ! ?i"
  let ?key = "task_key ?t"
  let ?ue = "task_update ?t"
  have "sched step mod length (pending tasks) < length (pending tasks)"
    using 2(1) by simp
  then have "?i \<in> set (pending tasks)"
    unfolding pick_def by (rule nth_mem)
  then have i: "?i < length tasks" and p: "is_pending (task_state ?t)"
    by (simp_all add: pending_def)
  obtain st where r: "resume cfg c tableName ?key ?ue ?M (task_state ?t) w = (st, w1)"
    and t1: "tasks1 = tasks[?i := ?t\<lparr>task_state := st\<rparr>]"
    using 2(2) by (auto simp: advance_def Let_def split: prod.splits)
  have less: "weight ?M st < weight ?M (task_state ?t)"
  proof (cases "task_state ?t")
    case (Waiting attempt outcome)
    show ?thesis
    proof (cases outcome)
      case (Inr u)
      with r Waiting have "st = Resolved True"
        by (auto simp: resume_def)
      with Waiting show ?thesis
        by simp
    next
      case (Inl e)
      with r Waiting have "catch_update cfg c ?M attempt e w = (st, w1)"
        by (simp add: resume_def)
      then have "st = Sleeping attempt \<or> st = Resolved False"
        by (auto simp: catch_update_def Let_def split: if_splits prod.splits)
      with Waiting show ?thesis
        by auto
    qed
  next
    case (Sleeping attempt)
    with r have b: "begin_attempt cfg c tableName ?key ?ue ?M (attempt + 1) w = (st, w1)"
      by (simp add: resume_def)
    show ?thesis
    proof (cases "int (attempt + 1) < ?M")
      case False
      with b have "st = Resolved False"
        by (simp add: begin_attempt_def)
      with Sleeping show ?thesis by simp
    next
      case True
      have "st = Resolved False \<or> st = Sleeping (attempt + 1) \<or>
          (\<exists>outcome. st = Waiting (attempt + 1) outcome)"
      proof (cases "marshall c ?key")
        case (Inl e)
        with b True have "catch_update cfg c ?M (attempt + 1) e w = (st, w1)"
          by (simp add: begin_attempt_def)
        then show ?thesis
          by (auto simp: catch_update_def Let_def split: if_splits prod.splits)
      next
        case (Inr k)
        with b True show ?thesis
          by (auto simp: begin_attempt_def split: prod.splits)
      qed
      moreover have "nat (?M - int attempt) = Suc (nat (?M - int (attempt + 1)))"
        using True by linarith
      ultimately show ?thesis
        using Sleeping by auto
    qed
  next
    case (Resolved b)
    with p show ?thesis by simp
  next
    case (Rejected error)
    with p show ?thesis by simp
  qed
  let ?f = "\<lambda>t. weight ?M (task_state t)"
  let ?ws = "map ?f tasks"
  have u: "map ?f (tasks[?i := ?t\<lparr>task_state := st\<rparr>]) = ?ws[?i := weight ?M st]"
    by (simp add: map_update)
  have n: "?ws ! ?i = weight ?M (task_state ?t)"
    using i by simp
  have l: "?i < length ?ws"
    using i by simp
  have "sum_list (?ws[?i := weight ?M st]) = sum_list ?ws + weight ?M st - ?ws ! ?i"
    using l by (rule sum_list_update)
  moreover have "?ws ! ?i \<in> set ?ws"
    using l by (rule nth_mem)
  then have "?ws ! ?i \<le> sum_list ?ws"
    by (rule member_le_sum_list) simp
  ultimately have "sum_list (?ws[?i := weight ?M st]) < sum_list ?ws"
    using less n by linarith
  then have "total_weight ?M tasks1 < total_weight ?M tasks"
    unfolding total_weight_def t1 u .
  then show ?case by simp
qed

declare drain.simps [simp del]

text \<open>
  \<^verbatim>\<open>await Promise.all(batchPromises)\<close> (line 179). The callbacks have all run to their
  first \<^verbatim>\<open>await\<close> when the promises are handed to \<^verbatim>\<open>Promise.all\<close>; if one of them is
  rejected already, \<^verbatim>\<open>Promise.all\<close> rejects with the error of the first such promise
  before anything else is resumed, and the \<^verbatim>\<open>await\<close> throws: the world of the result is
  the one in which \<^verbatim>\<open>processItemsInBatches\<close> throws. A promise is rejected only by
  \<^verbatim>\<open>createUpdateExpression\<close>, before the first \<^verbatim>\<open>await\<close> of its callback; once all
  callbacks are suspended, none of them rejects, and \<^verbatim>\<open>Promise.all\<close> resolves when the
  last promise is settled.
\<close>

fun first_rejection :: "task list \<Rightarrow> js_error option" where
  "first_rejection [] = None"
| "first_rejection (t # ts) =
     (case task_state t of Rejected error \<Rightarrow> Some error | _ \<Rightarrow> first_rejection ts)"

definition batch_result :: "task \<Rightarrow> bool" where
  "batch_result t = (case task_state t of Resolved success \<Rightarrow> success | _ \<Rightarrow> False)"

definition run_batch ::
  "(nat \<Rightarrow> nat) \<Rightarrow> config \<Rightarrow> ('s, 'r, 'k, 'm) client \<Rightarrow> string \<Rightarrow> string list \<Rightarrow> keySchema \<Rightarrow>
     js_object list \<Rightarrow> nat \<Rightarrow> ('s, 'k, 'm) world \<Rightarrow>
     (js_error + bool list) \<times> nat \<times> ('s, 'k, 'm) world" where
  "run_batch sched cfg c tableName attributesToRemove ks batch step w =
     (case start_all cfg c tableName attributesToRemove ks batch w of
        (tasks, w1) \<Rightarrow>
          (case first_rejection tasks of
             Some error \<Rightarrow> (Inl error, step, w1)
           | None \<Rightarrow>
               (case drain sched cfg c tableName tasks step w1 of
                  (settled, step1, w2) \<Rightarrow> (Inr (map batch_result settled), step1, w2))))"

record counts =
  successCount :: nat
  errorCount :: nat

text \<open>The counting of lines 182-188.\<close>

definition count_results :: "counts \<Rightarrow> bool list \<Rightarrow> counts" where
  "count_results cs batchResults =
     foldl (\<lambda>cs success.
              if success then cs\<lparr>successCount := successCount cs + 1\<rparr>
              else cs\<lparr>errorCount := errorCount cs + 1\<rparr>) cs batchResults"

text \<open>
  The loop over the batches (lines 159-197), with \<^verbatim>\<open>batchIndex\<close> and the two counters as
  arguments.
\<close>

function batch_loop ::
  "(nat \<Rightarrow> nat) \<Rightarrow> config \<Rightarrow> ('s, 'r, 'k, 'm) client \<Rightarrow> string \<Rightarrow> string list \<Rightarrow> keySchema \<Rightarrow>
     js_object list list \<Rightarrow> nat \<Rightarrow> counts \<Rightarrow> nat \<Rightarrow> ('s, 'k, 'm) world \<Rightarrow>
     (js_error + counts) \<times> ('s, 'k, 'm) world" where
  "batch_loop sched cfg c tableName attributesToRemove ks batches batchIndex cs step w =
     (if batchIndex < length batches then
        (let batch = batches ! batchIndex
         in case run_batch sched cfg c tableName attributesToRemove ks batch step w of
              (Inl error, step1, w1) \<Rightarrow> (Inl error, w1)
            | (Inr batchResults, step1, w1) \<Rightarrow>
                (let cs1 = count_results cs batchResults;
                     w2 = (if int batchIndex < int (length batches) - 1
                           then delay 200 w1 else w1)
                 in batch_loop sched cfg c tableName attributesToRemove ks batches
                      (batchIndex + 1) cs1 step1 w2))
      else (Inr cs, w))"
  by pat_completeness auto
termination
  by (relation "measure (\<lambda>(sched, cfg, c, tableName, attributesToRemove, ks, batches, batchIndex,
                  cs, step, w). length batches - batchIndex)") auto

declare batch_loop.simps [simp del]

text \<open>
  \<^verbatim>\<open>processItemsInBatches\<close> (lines 146-200), under the schedule \<open>sched\<close>. \<open>None\<close>: the
  grouping loop never ends; \<open>Some (Inl error, _)\<close>: the call throws.
\<close>

definition processItemsInBatches ::
  "(nat \<Rightarrow> nat) \<Rightarrow> config \<Rightarrow> ('s, 'r, 'k, 'm) client \<Rightarrow> js_object list \<Rightarrow> string \<Rightarrow>
     string list \<Rightarrow> keySchema \<Rightarrow> ('s, 'k, 'm) world \<Rightarrow>
     ((js_error + counts) \<times> ('s, 'k, 'm) world) option" where
  "processItemsInBatches sched cfg c items tableName attributesToRemove ks w =
     (case make_batches (BATCH_SIZE cfg) items 0 [] of
        None \<Rightarrow> None
      | Some batches \<Rightarrow>
          Some (batch_loop sched cfg c tableName attributesToRemove ks batches 0
                  \<lparr>successCount = 0, errorCount = 0\<rparr> 0 w))"

section \<open>Reference definitions and scenarios\<close>

text \<open>
  The three records of the specification's example:
  \<^verbatim>\<open>[{id:1, old:"x"}, {id:2}, {id:3, old:"y", extra:1}]\<close>.
\<close>

definition record1 :: js_object where
  "record1 = [(''id'', Number 1), (''old'', String ''x'')]"

definition record2 :: js_object where
  "record2 = [(''id'', Number 2)]"

definition record3 :: js_object where
  "record3 = [(''id'', Number 3), (''old'', String ''y''), (''extra'', Number 1)]"

text \<open>A record that carries a field named \<^verbatim>\<open>hasOwnProperty\<close>, and the field \<^verbatim>\<open>old\<close>.\<close>

definition shadow_record :: js_object where
  "shadow_record = [(''id'', Number 4), (''hasOwnProperty'', Bool True), (''old'', String ''z'')]"

text \<open>
  The partition that the specification describes for the batch scheduler: contiguous groups
  of \<open>n\<close> elements, the last one possibly smaller. It is what the grouping loop is compared
  with; the program does not use it.
\<close>

function chunks :: "nat \<Rightarrow> 'a list \<Rightarrow> 'a list list" where
  "chunks n xs = (if n = 0 \<or> xs = [] then [] else take n xs # chunks n (drop n xs))"
  by pat_completeness auto
termination
  by (relation "measure (\<lambda>(n, xs). length xs)") auto

declare chunks.simps [simp del]

text \<open>The update requests and the sleeps of a trace, each in order.\<close>

fun updates_sent :: "('k, 'm) event list \<Rightarrow> 'm update_params list" where
  "updates_sent [] = []"
| "updates_sent (UpdateSent p # es) = p # updates_sent es"
| "updates_sent (_ # es) = updates_sent es"

fun sleeps :: "('k, 'm) event list \<Rightarrow> real list" where
  "sleeps [] = []"
| "sleeps (Delay ms # es) = ms # sleeps es"
| "sleeps (_ # es) = sleeps es"



text \<open>
  A store for the scenarios. Its state counts the requests it has received. It throttles
  the first \<open>n\<close> requests and serves the later ones; a scan is served in one page that
  holds the three records; \<^verbatim>\<open>Math.random()\<close> yields one half.
\<close>

definition throttle_first :: "nat \<Rightarrow> (nat, js_object, nat, js_object) client" where
  "throttle_first n =
     \<lparr>send_scan = (\<lambda>p s.
        (if s < n then Inl (Error ''ThrottlingException'' ''Rate exceeded'')
         else Inr \<lparr>Items = Some [record1, record2, record3], LastEvaluatedKey = None\<rparr>,
         Suc s)),
      send_update = (\<lambda>p s.
        (if s < n then Inl (Error ''ThrottlingException'' ''Rate exceeded'') else Inr (),
         Suc s)),
      random = (\<lambda>s. (1 / 2, s)),
      unmarshall = (\<lambda>r. r),
      marshall = (\<lambda>key. Inr key)\<rparr>"

text \<open>A store that throttles every update.\<close>

definition always_throttled :: "(nat, js_object, nat, js_object) client" where
  "always_throttled =
     \<lparr>send_scan = (\<lambda>p s.
        (Inr \<lparr>Items = Some [record1, record2, record3], LastEvaluatedKey = None\<rparr>, Suc s)),
      send_update = (\<lambda>p s. (Inl (Error ''ThrottlingException'' ''Rate exceeded''), Suc s)),
      random = (\<lambda>s. (1 / 2, s)),
      unmarshall = (\<lambda>r. r),
      marshall = (\<lambda>key. Inr key)\<rparr>"

text \<open>
  A store that serves a scan in two pages, of 100 and of 47 copies of a record, the first
  with a continuation token.
\<close>

definition two_pages :: "(nat, js_object, nat, js_object) client" where
  "two_pages =
     \<lparr>send_scan = (\<lambda>p s.
        (case ExclusiveStartKey p of
           None \<Rightarrow> Inr \<lparr>Items = Some (replicate 100 record1), LastEvaluatedKey = Some 100\<rparr>
         | Some k \<Rightarrow> Inr \<lparr>Items = Some (replicate 47 record3), LastEvaluatedKey = None\<rparr>,
         Suc s)),
      send_update = (\<lambda>p s. (Inr (), Suc s)),
      random = (\<lambda>s. (1 / 2, s)),
      unmarshall = (\<lambda>r. r),
      marshall = (\<lambda>key. Inr key)\<rparr>"

text \<open>
  A store that serves a first page with the token 7, throttles the second request, and
  then serves the last page; and a store that refuses every scan.
\<close>

definition throttle_second :: "(nat, js_object, nat, js_object) client" where
  "throttle_second =
     \<lparr>send_scan = (\<lambda>p s.
        (if s = 0 then Inr \<lparr>Items = Some [record1], LastEvaluatedKey = Some 7\<rparr>
         else if s = 1 then Inl (Error ''ProvisionedThroughputExceededException'' ''Slow down'')
         else Inr \<lparr>Items = Some [record2, record3], LastEvaluatedKey = None\<rparr>,
         Suc s)),
      send_update = (\<lambda>p s. (Inr (), Suc s)),
      random = (\<lambda>s. (1 / 2, s)),
      unmarshall = (\<lambda>r. r),
      marshall = (\<lambda>key. Inr key)\<rparr>"

definition scan_denied :: "(nat, js_object, nat, js_object) client" where
  "scan_denied =
     \<lparr>send_scan = (\<lambda>p s. (Inl (Error ''AccessDeniedException'' ''Not authorized''), Suc s)),
      send_update = (\<lambda>p s. (Inr (), Suc s)),
      random = (\<lambda>s. (1 / 2, s)),
      unmarshall = (\<lambda>r. r),
      marshall = (\<lambda>key. Inr key)\<rparr>"

text \<open>The default configuration (lines 10-12) and the key schema of line 77.\<close>

definition default_config :: config where
  "default_config = \<lparr>BATCH_SIZE = 25, MAX_RETRIES = 5, INITIAL_DELAY = 100\<rparr>"

definition id_schema :: keySchema where
  "id_schema = \<lparr>partitionKey = ''id'', sortKey = None\<rparr>"

definition start :: "(nat, nat, js_object) world" where
  "start = \<lparr>ext = 0, trace = []\<rparr>"

text \<open>The update of the first record of the example: its key, and the removal of \<^verbatim>\<open>old\<close>.\<close>

definition key1 :: js_object where
  "key1 = [(''id'', Number 1)]"

definition remove_old :: update_expression where
  "remove_old =
     \<lparr>UpdateExpression = ''REMOVE #attr0'', ExpressionAttributeNames = [(''#attr0'', ''old'')]\<rparr>"

definition update1 :: "js_object update_params" where
  "update1 =
     \<lparr>update_TableName = ''devices'', Key = key1, update_spread = Some remove_old,
      ReturnValues = ''NONE''\<rparr>"

text \<open>The update of the third record.\<close>

definition key3 :: js_object where
  "key3 = [(''id'', Number 3)]"

definition update3 :: "js_object update_params" where
  "update3 =
     \<lparr>update_TableName = ''devices'', Key = key3, update_spread = Some remove_old,
      ReturnValues = ''NONE''\<rparr>"

text \<open>
  A configuration of two items per batch and two attempts per item, and the schedule that
  resumes the pending promises in turn: at step \<open>n\<close>, the one of number \<open>n\<close> modulo the
  number of pending promises.
\<close>

definition two_per_batch :: config where
  "two_per_batch = \<lparr>BATCH_SIZE = 2, MAX_RETRIES = 2, INITIAL_DELAY = 100\<rparr>"

definition in_turn :: "nat \<Rightarrow> nat" where
  "in_turn n = n"

section \<open>Properties of the backoff calculator\<close>

text \<open>
  C7, as the code has it. For a value \<open>rnd\<close> of \<^verbatim>\<open>Math.random()\<close>, which lies in
  \<open>[0, 1)\<close>, and a positive base, the delay is \<open>min (base * 2 ^ a + jitter) 30000\<close> for a
  jitter in \<open>[0, 1000)\<close>; it is at most 30000 ms, and it is at least the smaller of
  \<open>base * 2 ^ a\<close> and 30000: the jitter only adds, below the cap.
\<close>

theorem calculateBackoffDelay_bounds:
  "0 \<le> rnd \<Longrightarrow> rnd < 1 \<Longrightarrow> 0 < baseDelay \<Longrightarrow>
     (\<exists>jitter. 0 \<le> jitter \<and> jitter < 1000 \<and>
        calculateBackoffDelay rnd attempt baseDelay =
          min (baseDelay * 2 ^ attempt + jitter) 30000) \<and>
     calculateBackoffDelay rnd attempt baseDelay \<le> 30000 \<and>
     min (baseDelay * 2 ^ attempt) 30000 \<le> calculateBackoffDelay rnd attempt baseDelay"
proof -
  assume r: "0 \<le> rnd" "rnd < 1" and b: "0 < baseDelay"
  have j: "0 \<le> rnd * 1000 \<and> rnd * 1000 < 1000"
    using r by simp
  then have "\<exists>jitter. 0 \<le> jitter \<and> jitter < 1000 \<and>
      calculateBackoffDelay rnd attempt baseDelay = min (baseDelay * 2 ^ attempt + jitter) 30000"
    unfolding calculateBackoffDelay_def by blast
  moreover have "calculateBackoffDelay rnd attempt baseDelay \<le> 30000"
    unfolding calculateBackoffDelay_def by simp
  moreover have "min (baseDelay * 2 ^ attempt) 30000 \<le> calculateBackoffDelay rnd attempt baseDelay"
    unfolding calculateBackoffDelay_def using j by (simp add: min_def)
  ultimately show ?thesis by blast
qed

text \<open>With the default base of 100 ms, at attempt 3 and a draw of one half.\<close>

theorem calculateBackoffDelay_bounds_witness:
  "calculateBackoffDelay (1/2) 3 100 = 1300 \<and>
   calculateBackoffDelay (1/2) 3 100 \<le> 30000 \<and>
   min (100 * 2 ^ 3) 30000 \<le> calculateBackoffDelay (1/2) 3 100"
  using calculateBackoffDelay_bounds [of "1/2" 100 3]
  by (simp add: calculateBackoffDelay_def)

text \<open>
  C7 as the specification words it asks for \<open>base * 2 ^ a \<le> delay a\<close> at every attempt.
  With the default base of 100 ms the ninth attempt would wait 51200 ms before jitter, and
  the cap returns 30000.
\<close>

theorem calculateBackoffDelay_lower_bound_counterexample:
  "\<not> (calculateBackoffDelay 0 9 100 \<le> 30000 \<and> 100 * 2 ^ 9 \<le> calculateBackoffDelay 0 9 100)"
  by (simp add: calculateBackoffDelay_def)

section \<open>Properties of the scanner\<close>

lemma scan_page_more:
  "sendScan c \<lparr>scan_TableName = tableName, ExclusiveStartKey = lek\<rparr> w = (Inr response, w1) \<Longrightarrow>
   LastEvaluatedKey response = Some k \<Longrightarrow>
   scan_loop cfg c tableName items lek w =
   scan_loop cfg c tableName
     (case Items response of Some raw \<Rightarrow> items @ map (unmarshall c) raw | None \<Rightarrow> items)
     (Some k) (delay 50 w1)"
  by (subst scan_loop.simps) (simp add: Let_def)

lemma scan_page_last:
  "sendScan c \<lparr>scan_TableName = tableName, ExclusiveStartKey = lek\<rparr> w = (Inr response, w1) \<Longrightarrow>
   LastEvaluatedKey response = None \<Longrightarrow>
   scan_loop cfg c tableName items lek w =
   Some (Inr (case Items response of Some raw \<Rightarrow> items @ map (unmarshall c) raw
              | None \<Rightarrow> items), w1)"
  by (subst scan_loop.simps) (simp add: Let_def)

lemma scan_error_propagates:
  "sendScan c \<lparr>scan_TableName = tableName, ExclusiveStartKey = lek\<rparr> w = (Inl e, w1) \<Longrightarrow>
   \<not> isThrottle e \<Longrightarrow>
   scan_loop cfg c tableName items lek w = Some (Inl e, w1)"
  by (subst scan_loop.simps) simp

lemma scan_throttle_retry:
  "sendScan c \<lparr>scan_TableName = tableName, ExclusiveStartKey = Some k\<rparr> w = (Inl e, w1) \<Longrightarrow>
   isThrottle e \<Longrightarrow> Math_random c w1 = (rnd, w2) \<Longrightarrow>
   scan_loop cfg c tableName items (Some k) w =
   scan_loop cfg c tableName items (Some k)
     (delay (calculateBackoffDelay rnd 1 (real_of_int (INITIAL_DELAY cfg))) w2)"
  by (subst scan_loop.simps) (simp add: Let_def)

lemma scan_throttle_first:
  "sendScan c \<lparr>scan_TableName = tableName, ExclusiveStartKey = None\<rparr> w = (Inl e, w1) \<Longrightarrow>
   isThrottle e \<Longrightarrow> Math_random c w1 = (rnd, w2) \<Longrightarrow>
   scan_loop cfg c tableName items None w =
   Some (Inr items, delay (calculateBackoffDelay rnd 1 (real_of_int (INITIAL_DELAY cfg))) w2)"
  by (subst scan_loop.simps) (simp add: Let_def)

lemma sendScan_world:
  "send_scan c p s = (r, s') \<Longrightarrow>
   sendScan c p \<lparr>ext = s, trace = tr\<rparr> = (r, \<lparr>ext = s', trace = tr @ [ScanSent p]\<rparr>)"
  by (simp add: sendScan_def)

text \<open>
  C9. When the store answers the first request with 100 items and a continuation token and
  the request that carries this token with 47 items and no token, \<^verbatim>\<open>scanAllItems\<close> returns
  the 147 items, those of the first page before those of the second, after two requests
  and exactly one sleep, the pacing sleep of 50 ms between them.
\<close>

theorem scanAllItems_two_pages:
  assumes p1: "send_scan c \<lparr>scan_TableName = tableName, ExclusiveStartKey = None\<rparr> s0 =
      (Inr \<lparr>Items = Some page1, LastEvaluatedKey = Some k\<rparr>, s1)"
    and p2: "send_scan c \<lparr>scan_TableName = tableName, ExclusiveStartKey = Some k\<rparr> s1 =
      (Inr \<lparr>Items = Some page2, LastEvaluatedKey = None\<rparr>, s2)"
    and l1: "length page1 = 100" and l2: "length page2 = 47"
  shows "scanAllItems cfg c tableName \<lparr>ext = s0, trace = tr\<rparr> =
      Some (Inr (map (unmarshall c) page1 @ map (unmarshall c) page2),
            \<lparr>ext = s2,
             trace = tr @
               [ScanSent \<lparr>scan_TableName = tableName, ExclusiveStartKey = None\<rparr>, Delay 50,
                ScanSent \<lparr>scan_TableName = tableName, ExclusiveStartKey = Some k\<rparr>]\<rparr>) \<and>
    length (map (unmarshall c) page1 @ map (unmarshall c) page2) = 147 \<and>
    sleeps [ScanSent \<lparr>scan_TableName = tableName, ExclusiveStartKey = None\<rparr>, Delay 50,
            ScanSent \<lparr>scan_TableName = tableName, ExclusiveStartKey = Some k\<rparr>] = [50]"
proof -
  let ?q1 = "\<lparr>scan_TableName = tableName, ExclusiveStartKey = None\<rparr>"
  let ?q2 = "\<lparr>scan_TableName = tableName, ExclusiveStartKey = Some k\<rparr>"
  have "scan_loop cfg c tableName [] None \<lparr>ext = s0, trace = tr\<rparr> =
      scan_loop cfg c tableName (map (unmarshall c) page1) (Some k)
        \<lparr>ext = s1, trace = tr @ [ScanSent ?q1, Delay 50]\<rparr>"
    using scan_page_more [OF sendScan_world [OF p1, of tr], of k cfg "[]"]
    by (simp add: delay_def)
  also have "\<dots> = Some (Inr (map (unmarshall c) page1 @ map (unmarshall c) page2),
      \<lparr>ext = s2, trace = tr @ [ScanSent ?q1, Delay 50, ScanSent ?q2]\<rparr>)"
    using scan_page_last [OF sendScan_world [OF p2, of "tr @ [ScanSent ?q1, Delay 50]"],
        of cfg "map (unmarshall c) page1"]
    by simp
  finally show ?thesis
    using l1 l2 by (simp add: scanAllItems_def)
qed

text \<open>A store that serves 100 copies of one record, then 47 of another.\<close>

theorem scanAllItems_two_pages_witness:
  "scanAllItems default_config two_pages ''devices'' start =
     Some (Inr (replicate 100 record1 @ replicate 47 record3),
           \<lparr>ext = 2,
            trace = [ScanSent \<lparr>scan_TableName = ''devices'', ExclusiveStartKey = None\<rparr>, Delay 50,
                     ScanSent \<lparr>scan_TableName = ''devices'', ExclusiveStartKey = Some 100\<rparr>]\<rparr>) \<and>
   length (replicate 100 record1 @ replicate 47 record3) = 147"
proof -
  have p1: "send_scan two_pages \<lparr>scan_TableName = ''devices'', ExclusiveStartKey = None\<rparr> 0 =
      (Inr \<lparr>Items = Some (replicate 100 record1), LastEvaluatedKey = Some 100\<rparr>, 1)"
    by (simp add: two_pages_def)
  have p2: "send_scan two_pages \<lparr>scan_TableName = ''devices'', ExclusiveStartKey = Some 100\<rparr> 1 =
      (Inr \<lparr>Items = Some (replicate 47 record3), LastEvaluatedKey = None\<rparr>, 2)"
    by (simp add: two_pages_def)
  have u: "unmarshall two_pages = (\<lambda>r. r)"
    by (simp add: two_pages_def)
  from scanAllItems_two_pages [OF p1 p2, of default_config "[]"] show ?thesis
    by (simp add: start_def u)
qed

text \<open>
  C2 fails on the first page. The \<^verbatim>\<open>continue\<close> of the handler goes to the test of the
  \<^verbatim>\<open>do ... while\<close> loop, and before the first page has been read \<^verbatim>\<open>lastEvaluatedKey\<close> is
  still \<^verbatim>\<open>null\<close>: the loop ends. Against a store that throttles the first request only,
  \<^verbatim>\<open>scanAllItems\<close> sleeps (700 ms for a base of 100 ms and a draw of one half) and returns
  no item, after a single request; the same request sent again would have been served the
  three records.
\<close>

theorem scanAllItems_first_page_throttled:
  "scanAllItems default_config (throttle_first 1) ''devices'' start =
     Some (Inr [],
           \<lparr>ext = 1,
            trace = [ScanSent \<lparr>scan_TableName = ''devices'', ExclusiveStartKey = None\<rparr>,
                     Delay 700]\<rparr>) \<and>
   send_scan (throttle_first 1) \<lparr>scan_TableName = ''devices'', ExclusiveStartKey = None\<rparr> 1 =
     (Inr \<lparr>Items = Some [record1, record2, record3], LastEvaluatedKey = None\<rparr>, 2)"
proof -
  let ?q = "\<lparr>scan_TableName = ''devices'', ExclusiveStartKey = None\<rparr> :: nat scan_params"
  let ?e = "Error ''ThrottlingException'' ''Rate exceeded''"
  have s: "sendScan (throttle_first 1) ?q \<lparr>ext = 0, trace = []\<rparr> =
      (Inl ?e, \<lparr>ext = Suc 0, trace = [ScanSent ?q]\<rparr>)"
    by (simp add: sendScan_def throttle_first_def)
  have t: "isThrottle ?e"
    by (simp add: isThrottle_def)
  have m: "Math_random (throttle_first 1) \<lparr>ext = Suc 0, trace = [ScanSent ?q]\<rparr> =
      (1 / 2, \<lparr>ext = Suc 0, trace = [ScanSent ?q]\<rparr>)"
    by (simp add: Math_random_def throttle_first_def)
  from scan_throttle_first [OF s t m, of default_config "[]"]
  have "scanAllItems default_config (throttle_first 1) ''devices'' start =
     Some (Inr [], \<lparr>ext = 1, trace = [ScanSent ?q, Delay 700]\<rparr>)"
    by (simp add: scanAllItems_def start_def delay_def calculateBackoffDelay_def default_config_def)
  then show ?thesis
    by (simp add: throttle_first_def)
qed

subsection \<open>Errors of scan requests after the first page\<close>

text \<open>
  X1. Once a token is held, a throttled request is followed by a sleep computed with the
  fixed attempt number 1, and the loop goes on with the same token and the items collected
  so far: its next request is the same one.
\<close>

theorem scan_later_page_throttled:
  "sendScan c \<lparr>scan_TableName = tableName, ExclusiveStartKey = Some k\<rparr> w = (Inl e, w1) \<Longrightarrow>
   isThrottle e \<Longrightarrow> Math_random c w1 = (rnd, w2) \<Longrightarrow>
   scan_loop cfg c tableName items (Some k) w =
   scan_loop cfg c tableName items (Some k)
     (delay (calculateBackoffDelay rnd 1 (real_of_int (INITIAL_DELAY cfg))) w2)"
  by (rule scan_throttle_retry)

text \<open>The store that throttles the request for the second page: that request is sent twice.\<close>

theorem scan_later_page_throttled_witness:
  "scanAllItems default_config throttle_second ''devices'' start =
     Some (Inr [record1, record2, record3],
           \<lparr>ext = 3,
            trace = [ScanSent \<lparr>scan_TableName = ''devices'', ExclusiveStartKey = None\<rparr>, Delay 50,
                     ScanSent \<lparr>scan_TableName = ''devices'', ExclusiveStartKey = Some 7\<rparr>, Delay 700,
                     ScanSent \<lparr>scan_TableName = ''devices'', ExclusiveStartKey = Some 7\<rparr>]\<rparr>)"
proof -
  let ?q0 = "\<lparr>scan_TableName = ''devices'', ExclusiveStartKey = None\<rparr> :: nat scan_params"
  let ?q7 = "\<lparr>scan_TableName = ''devices'', ExclusiveStartKey = Some 7\<rparr> :: nat scan_params"
  let ?e = "Error ''ProvisionedThroughputExceededException'' ''Slow down''"
  let ?loop = "scan_loop default_config throttle_second ''devices''"
  let ?w1 = "\<lparr>ext = Suc 0, trace = [ScanSent ?q0, Delay 50]\<rparr> :: (nat, nat, js_object) world"
  let ?w2 = "\<lparr>ext = Suc (Suc 0), trace = [ScanSent ?q0, Delay 50, ScanSent ?q7]\<rparr>
    :: (nat, nat, js_object) world"
  let ?w3 = "\<lparr>ext = Suc (Suc 0), trace = [ScanSent ?q0, Delay 50, ScanSent ?q7, Delay 700]\<rparr>
    :: (nat, nat, js_object) world"
  have a: "sendScan throttle_second ?q0 \<lparr>ext = 0, trace = []\<rparr> =
      (Inr \<lparr>Items = Some [record1], LastEvaluatedKey = Some 7\<rparr>,
       \<lparr>ext = Suc 0, trace = [ScanSent ?q0]\<rparr>)"
    by (simp add: sendScan_def throttle_second_def)
  have b: "sendScan throttle_second ?q7 ?w1 = (Inl ?e, ?w2)"
    by (simp add: sendScan_def throttle_second_def)
  have t: "isThrottle ?e"
    by (simp add: isThrottle_def)
  have m: "Math_random throttle_second ?w2 = (1 / 2, ?w2)"
    by (simp add: Math_random_def throttle_second_def)
  have c: "sendScan throttle_second ?q7 ?w3 =
      (Inr \<lparr>Items = Some [record2, record3], LastEvaluatedKey = None\<rparr>,
       \<lparr>ext = Suc (Suc (Suc 0)),
        trace = [ScanSent ?q0, Delay 50, ScanSent ?q7, Delay 700, ScanSent ?q7]\<rparr>)"
    by (simp add: sendScan_def throttle_second_def)
  have "?loop [] None \<lparr>ext = 0, trace = []\<rparr> = ?loop [record1] (Some 7) ?w1"
    using scan_page_more [OF a, of 7 default_config "[]"]
    by (simp add: delay_def throttle_second_def)
  also have "\<dots> = ?loop [record1] (Some 7) ?w3"
    using scan_later_page_throttled [OF b t m, of default_config "[record1]"]
    by (simp add: delay_def calculateBackoffDelay_def default_config_def)
  also have "\<dots> = Some (Inr [record1, record2, record3],
      \<lparr>ext = Suc (Suc (Suc 0)),
       trace = [ScanSent ?q0, Delay 50, ScanSent ?q7, Delay 700, ScanSent ?q7]\<rparr>)"
    using scan_page_last [OF c, of default_config "[record1]"]
    by (simp add: throttle_second_def)
  finally show ?thesis
    by (simp add: scanAllItems_def start_def)
qed

text \<open>
  X2. An error of a scan request that is not a throttle is thrown by \<^verbatim>\<open>scanAllItems\<close> at
  once, on any page: no sleep and no further request follow.
\<close>

theorem scan_other_error_propagates:
  "sendScan c \<lparr>scan_TableName = tableName, ExclusiveStartKey = lek\<rparr> w = (Inl e, w1) \<Longrightarrow>
   \<not> isThrottle e \<Longrightarrow>
   scan_loop cfg c tableName items lek w = Some (Inl e, w1)"
  by (rule scan_error_propagates)

text \<open>The store that refuses every scan.\<close>

theorem scan_other_error_propagates_witness:
  "scanAllItems default_config scan_denied ''devices'' start =
     Some (Inl (Error ''AccessDeniedException'' ''Not authorized''),
           \<lparr>ext = 1,
            trace = [ScanSent \<lparr>scan_TableName = ''devices'', ExclusiveStartKey = None\<rparr>]\<rparr>)"
proof -
  let ?q0 = "\<lparr>scan_TableName = ''devices'', ExclusiveStartKey = None\<rparr> :: nat scan_params"
  let ?e = "Error ''AccessDeniedException'' ''Not authorized''"
  have a: "sendScan scan_denied ?q0 \<lparr>ext = 0, trace = []\<rparr> =
      (Inl ?e, \<lparr>ext = Suc 0, trace = [ScanSent ?q0]\<rparr>)"
    by (simp add: sendScan_def scan_denied_def)
  have t: "\<not> isThrottle ?e"
    by (simp add: isThrottle_def)
  from scan_other_error_propagates [OF a t, of default_config "[]"] show ?thesis
    by (simp add: scanAllItems_def start_def)
qed

section \<open>Properties of the change filter\<close>

lemma hasOwnProperty_plain:
  "''hasOwnProperty'' \<notin> field_names item \<Longrightarrow>
   hasOwnProperty item attr = Inr (attr \<in> field_names item)"
  by (simp add: hasOwnProperty_def field_names_def map_of_eq_None_iff)

lemma hasOwnProperty_shadowed:
  "''hasOwnProperty'' \<in> field_names item \<Longrightarrow>
   hasOwnProperty item attr = Inl (Error ''TypeError'' ''item.hasOwnProperty is not a function'')"
  by (simp add: hasOwnProperty_def field_names_def map_of_eq_None_iff)

lemma js_some_total: "\<forall>x \<in> set xs. f x = Inr (p x) \<Longrightarrow> js_some f xs = Inr (\<exists>x \<in> set xs. p x)"
  by (induction xs) auto

lemma js_some_throws: "xs \<noteq> [] \<Longrightarrow> \<forall>x \<in> set xs. f x = Inl e \<Longrightarrow> js_some f xs = Inl e"
  by (cases xs) auto

lemma js_filter_total: "\<forall>x \<in> set xs. f x = Inr (p x) \<Longrightarrow> js_filter f xs = Inr (filter p xs)"
  by (induction xs) auto

lemma js_filter_throws:
  "\<forall>x \<in> set xs. f x = Inl e \<or> (\<exists>b. f x = Inr b) \<Longrightarrow> \<exists>x \<in> set xs. f x = Inl e \<Longrightarrow>
   js_filter f xs = Inl e"
proof (induction xs)
  case Nil
  then show ?case by simp
next
  case (Cons x xs)
  show ?case
  proof (cases "f x")
    case (Inl e')
    with Cons.prems(1) have "e' = e" by auto
    with Inl show ?thesis by simp
  next
    case (Inr b)
    with Cons.prems have "\<exists>x \<in> set xs. f x = Inl e" by auto
    with Cons.IH Cons.prems(1) have "js_filter f xs = Inl e" by simp
    with Inr show ?thesis by simp
  qed
qed

lemma some_attribute_plain:
  "''hasOwnProperty'' \<notin> field_names item \<Longrightarrow>
   js_some (\<lambda>attr. hasOwnProperty item attr) F = Inr (field_names item \<inter> set F \<noteq> {})"
proof -
  assume "''hasOwnProperty'' \<notin> field_names item"
  then have "\<forall>attr \<in> set F. hasOwnProperty item attr = Inr (attr \<in> field_names item)"
    by (simp add: hasOwnProperty_plain)
  then have "js_some (\<lambda>attr. hasOwnProperty item attr) F = Inr (\<exists>attr \<in> set F. attr \<in> field_names item)"
    by (rule js_some_total)
  moreover have "(\<exists>attr \<in> set F. attr \<in> field_names item) \<longleftrightarrow> field_names item \<inter> set F \<noteq> {}"
    by auto
  ultimately show ?thesis by simp
qed

lemma some_attribute_shadowed:
  "F \<noteq> [] \<Longrightarrow> ''hasOwnProperty'' \<in> field_names item \<Longrightarrow>
   js_some (\<lambda>attr. hasOwnProperty item attr) F =
     Inl (Error ''TypeError'' ''item.hasOwnProperty is not a function'')"
  by (rule js_some_throws) (simp_all add: hasOwnProperty_shadowed)

lemma filter_plain:
  assumes "F = [] \<or> (\<forall>r \<in> set records. ''hasOwnProperty'' \<notin> field_names r)"
  shows "filterItemsWithAttributes records F =
    Inr (filter (\<lambda>r. field_names r \<inter> set F \<noteq> {}) records)"
proof -
  have "\<forall>r \<in> set records. js_some (\<lambda>attr. hasOwnProperty r attr) F =
      Inr (field_names r \<inter> set F \<noteq> {})"
    using assms by (auto simp: some_attribute_plain)
  then show ?thesis
    unfolding filterItemsWithAttributes_def by (rule js_filter_total)
qed

lemma filter_shadowed:
  assumes F: "F \<noteq> []" and s: "\<exists>r \<in> set records. ''hasOwnProperty'' \<in> field_names r"
  shows "filterItemsWithAttributes records F =
    Inl (Error ''TypeError'' ''item.hasOwnProperty is not a function'')"
  unfolding filterItemsWithAttributes_def
proof (rule js_filter_throws)
  show "\<forall>r \<in> set records.
      js_some (\<lambda>attr. hasOwnProperty r attr) F =
        Inl (Error ''TypeError'' ''item.hasOwnProperty is not a function'') \<or>
      (\<exists>b. js_some (\<lambda>attr. hasOwnProperty r attr) F = Inr b)"
    using F by (metis some_attribute_plain some_attribute_shadowed)
  show "\<exists>r \<in> set records. js_some (\<lambda>attr. hasOwnProperty r attr) F =
      Inl (Error ''TypeError'' ''item.hasOwnProperty is not a function'')"
    using F s some_attribute_shadowed by blast
qed

lemma filter_returned:
  assumes "filterItemsWithAttributes records F = Inr items"
  shows "items = filter (\<lambda>r. field_names r \<inter> set F \<noteq> {}) records \<and>
    (F = [] \<or> (\<forall>r \<in> set records. ''hasOwnProperty'' \<notin> field_names r))"
proof (cases "F = [] \<or> (\<forall>r \<in> set records. ''hasOwnProperty'' \<notin> field_names r)")
  case True
  with assms filter_plain [OF True] show ?thesis by simp
next
  case False
  then have "filterItemsWithAttributes records F =
      Inl (Error ''TypeError'' ''item.hasOwnProperty is not a function'')"
    by (intro filter_shadowed) auto
  with assms show ?thesis by simp
qed

text \<open>
  C5 fails on a record that carries a field named \<^verbatim>\<open>hasOwnProperty\<close>: the call of line 83
  reaches the field instead of the method and throws. A list of one such record, which has
  the field \<^verbatim>\<open>old\<close> and should be selected, makes \<^verbatim>\<open>filterItemsWithAttributes\<close> throw a
  \<^verbatim>\<open>TypeError\<close>.
\<close>

theorem filterItemsWithAttributes_shadowed_record:
  "filterItemsWithAttributes [shadow_record] [''old''] =
     Inl (Error ''TypeError'' ''item.hasOwnProperty is not a function'') \<and>
   field_names shadow_record \<inter> set [''old''] \<noteq> {}"
  by (simp add: filterItemsWithAttributes_def hasOwnProperty_def shadow_record_def field_names_def)

text \<open>
  X4. On records of which none carries a field named \<^verbatim>\<open>hasOwnProperty\<close>, and for an empty
  \<open>F\<close>, \<^verbatim>\<open>filterItemsWithAttributes\<close> returns exactly the records that carry a field of
  \<open>F\<close>, in the order of the input, as a subsequence of it, and filtering its result again
  with the same \<open>F\<close> returns the same list. In every other case it throws the
  \<^verbatim>\<open>TypeError\<close>.
\<close>

theorem filterItemsWithAttributes_plain_records:
  "(F = [] \<or> (\<forall>r \<in> set records. ''hasOwnProperty'' \<notin> field_names r) \<longrightarrow>
      filterItemsWithAttributes records F =
        Inr (filter (\<lambda>r. field_names r \<inter> set F \<noteq> {}) records) \<and>
      subseq (filter (\<lambda>r. field_names r \<inter> set F \<noteq> {}) records) records \<and>
      filterItemsWithAttributes (filter (\<lambda>r. field_names r \<inter> set F \<noteq> {}) records) F =
        Inr (filter (\<lambda>r. field_names r \<inter> set F \<noteq> {}) records)) \<and>
   (F \<noteq> [] \<and> (\<exists>r \<in> set records. ''hasOwnProperty'' \<in> field_names r) \<longrightarrow>
      filterItemsWithAttributes records F =
        Inl (Error ''TypeError'' ''item.hasOwnProperty is not a function''))"
proof (intro conjI impI)
  let ?kept = "filter (\<lambda>r. field_names r \<inter> set F \<noteq> {}) records"
  assume a: "F = [] \<or> (\<forall>r \<in> set records. ''hasOwnProperty'' \<notin> field_names r)"
  then show "filterItemsWithAttributes records F = Inr ?kept"
    by (rule filter_plain)
  show "subseq ?kept records"
    by simp
  from a have "F = [] \<or> (\<forall>r \<in> set ?kept. ''hasOwnProperty'' \<notin> field_names r)"
    by auto
  from filter_plain [OF this] show "filterItemsWithAttributes ?kept F = Inr ?kept"
    by simp
next
  assume "F \<noteq> [] \<and> (\<exists>r \<in> set records. ''hasOwnProperty'' \<in> field_names r)"
  then show "filterItemsWithAttributes records F =
      Inl (Error ''TypeError'' ''item.hasOwnProperty is not a function'')"
    by (intro filter_shadowed) blast+
qed

text \<open>
  The specification's example: of the three records, the first and the third are kept;
  with the shadowing record among them the call throws.
\<close>

theorem filterItemsWithAttributes_plain_records_witness:
  "filterItemsWithAttributes [record1, record2, record3] [''old''] = Inr [record1, record3] \<and>
   filterItemsWithAttributes [record1, record3] [''old''] = Inr [record1, record3] \<and>
   filterItemsWithAttributes [record1, shadow_record, record3] [''old''] =
     Inl (Error ''TypeError'' ''item.hasOwnProperty is not a function'')"
proof -
  let ?rs = "[record1, record2, record3]"
  have n: "\<forall>r \<in> set ?rs. ''hasOwnProperty'' \<notin> field_names r"
    by (simp add: field_names_def record1_def record2_def record3_def)
  have k: "filter (\<lambda>r. field_names r \<inter> set [''old''] \<noteq> {}) ?rs = [record1, record3]"
    by (simp add: field_names_def record1_def record2_def record3_def)
  have s: "\<exists>r \<in> set [record1, shadow_record, record3]. ''hasOwnProperty'' \<in> field_names r"
    by (simp add: field_names_def shadow_record_def)
  have F: "[''old''] \<noteq> ([] :: string list)"
    by simp
  from filterItemsWithAttributes_plain_records [of "[''old'']" ?rs] n
  have "filterItemsWithAttributes ?rs [''old''] =
        Inr (filter (\<lambda>r. field_names r \<inter> set [''old''] \<noteq> {}) ?rs) \<and>
      filterItemsWithAttributes (filter (\<lambda>r. field_names r \<inter> set [''old''] \<noteq> {}) ?rs)
        [''old''] = Inr (filter (\<lambda>r. field_names r \<inter> set [''old''] \<noteq> {}) ?rs)"
    by blast
  then have "filterItemsWithAttributes ?rs [''old''] = Inr [record1, record3] \<and>
      filterItemsWithAttributes [record1, record3] [''old''] = Inr [record1, record3]"
    unfolding k .
  moreover from filterItemsWithAttributes_plain_records
    [of "[''old'']" "[record1, shadow_record, record3]"] s F
  have "filterItemsWithAttributes [record1, shadow_record, record3] [''old''] =
      Inl (Error ''TypeError'' ''item.hasOwnProperty is not a function'')"
    by blast
  ultimately show ?thesis
    by blast
qed

subsection \<open>The removal operation\<close>

lemma digit_inj: "a < 10 \<Longrightarrow> b < 10 \<Longrightarrow> digit a = digit b \<Longrightarrow> a = b"
proof -
  assume a: "a < 10" and b: "b < 10" and e: "digit a = digit b"
  have d: "distinct ''0123456789''" by simp
  have "length ''0123456789'' = 10" by simp
  with a b e d show "a = b"
    unfolding digit_def by (metis nth_eq_iff_index_eq)
qed

lemma string_of_nat_nonempty: "string_of_nat n \<noteq> []"
  by (subst string_of_nat.simps) simp

lemma string_of_nat_small: "n < 10 \<Longrightarrow> string_of_nat n = [digit n]"
  by (subst string_of_nat.simps) simp

lemma string_of_nat_large:
  "\<not> n < 10 \<Longrightarrow> string_of_nat n = string_of_nat (n div 10) @ [digit (n mod 10)]"
  by (subst string_of_nat.simps) simp

lemma string_of_nat_inj: "string_of_nat n = string_of_nat m \<Longrightarrow> n = m"
proof (induction n arbitrary: m rule: string_of_nat.induct)
  case (1 n)
  show ?case
  proof (cases "n < 10")
    case True
    note n = this
    show ?thesis
    proof (cases "m < 10")
      case True
      with n 1(2) show ?thesis
        by (simp add: string_of_nat_small digit_inj)
    next
      case False
      with n 1(2) have "[digit n] = string_of_nat (m div 10) @ [digit (m mod 10)]"
        by (simp add: string_of_nat_small string_of_nat_large)
      then show ?thesis
        using string_of_nat_nonempty [of "m div 10"] by simp
    qed
  next
    case False
    note n = this
    show ?thesis
    proof (cases "m < 10")
      case True
      with n 1(2) have "string_of_nat (n div 10) @ [digit (n mod 10)] = [digit m]"
        by (simp add: string_of_nat_small string_of_nat_large)
      then show ?thesis
        using string_of_nat_nonempty [of "n div 10"] by simp
    next
      case False
      with n 1(2) have e: "string_of_nat (n div 10) = string_of_nat (m div 10)"
        and d: "digit (n mod 10) = digit (m mod 10)"
        by (simp_all add: string_of_nat_large)
      from 1(1) [OF n e] have "n div 10 = m div 10" .
      moreover from d have "n mod 10 = m mod 10"
        by (intro digit_inj) simp_all
      ultimately show ?thesis
        by (metis div_mult_mod_eq)
    qed
  qed
qed

lemma placeholder_inj: "placeholder i = placeholder j \<Longrightarrow> i = j"
  by (simp add: placeholder_def string_of_nat_inj)

lemma update_fresh: "k \<notin> fst ` set al \<Longrightarrow> AList.update k v al = al @ [(k, v)]"
  by (induction al) auto

lemma upt_add_Suc: "[n ..< n + Suc k] = n # [Suc n ..< Suc n + k]"
  using upt_conv_Cons [of n "n + Suc k"] by simp

lemma names_foldl:
  "\<forall>k \<in> fst ` set acc. \<exists>j < n. k = placeholder j \<Longrightarrow>
   foldl (\<lambda>names (index, attr). AList.update (placeholder index) attr names) acc
     (List.enumerate n xs) = acc @ zip (map placeholder [n ..< n + length xs]) xs"
proof (induction xs arbitrary: n acc)
  case Nil
  then show ?case by simp
next
  case (Cons x xs)
  have fresh: "placeholder n \<notin> fst ` set acc"
  proof
    assume "placeholder n \<in> fst ` set acc"
    with Cons.prems obtain j where "j < n" "placeholder n = placeholder j" by blast
    then show False using placeholder_inj by blast
  qed
  have inv: "\<forall>k \<in> fst ` set (acc @ [(placeholder n, x)]). \<exists>j < Suc n. k = placeholder j"
    using Cons.prems by (auto intro: less_SucI)
  have "[n ..< n + length (x # xs)] = n # [Suc n ..< Suc n + length xs]"
    using upt_add_Suc [of n "length xs"] by simp
  then show ?case
    using Cons.IH [OF inv] by (simp add: update_fresh [OF fresh])
qed

lemma placeholders_enumerate:
  "map (\<lambda>(index, attr). placeholder index) (List.enumerate n xs) =
   map placeholder [n ..< n + length xs]"
proof (induction xs arbitrary: n)
  case Nil
  show ?case by simp
next
  case (Cons x xs)
  show ?case
    using Cons.IH [of "Suc n"] upt_add_Suc [of n "length xs"] by simp
qed

lemma existing_attributes_plain:
  assumes "F = [] \<or> ''hasOwnProperty'' \<notin> field_names r"
  shows "js_filter (\<lambda>attr. hasOwnProperty r attr) F = Inr (filter (\<lambda>attr. attr \<in> field_names r) F)"
proof -
  have "\<forall>attr \<in> set F. hasOwnProperty r attr = Inr (attr \<in> field_names r)"
    using assms by (auto simp: hasOwnProperty_plain)
  then show ?thesis
    by (rule js_filter_total)
qed

lemma existing_attributes_shadowed:
  assumes "F \<noteq> []" and "''hasOwnProperty'' \<in> field_names r"
  shows "js_filter (\<lambda>attr. hasOwnProperty r attr) F =
    Inl (Error ''TypeError'' ''item.hasOwnProperty is not a function'')"
proof (rule js_filter_throws)
  show "\<forall>attr \<in> set F.
      hasOwnProperty r attr = Inl (Error ''TypeError'' ''item.hasOwnProperty is not a function'') \<or>
      (\<exists>b. hasOwnProperty r attr = Inr b)"
    using assms(2) by (simp add: hasOwnProperty_shadowed)
  show "\<exists>attr \<in> set F.
      hasOwnProperty r attr = Inl (Error ''TypeError'' ''item.hasOwnProperty is not a function'')"
    using assms by (cases F) (auto simp: hasOwnProperty_shadowed)
qed

lemma createUpdateExpression_eq:
  assumes "F = [] \<or> ''hasOwnProperty'' \<notin> field_names r"
  shows "createUpdateExpression F r =
     Inr (let existing = filter (\<lambda>attr. attr \<in> field_names r) F; n = length existing
          in if existing = [] then None
             else Some \<lparr>UpdateExpression = ''REMOVE '' @ join '', '' (map placeholder [0 ..< n]),
                        ExpressionAttributeNames = zip (map placeholder [0 ..< n]) existing\<rparr>)"
  unfolding createUpdateExpression_def existing_attributes_plain [OF assms] Let_def
  using names_foldl [of "[]" 0 "filter (\<lambda>attr. attr \<in> field_names r) F"]
    placeholders_enumerate [of 0 "filter (\<lambda>attr. attr \<in> field_names r) F"]
  by simp

lemma createUpdateExpression_shadowed:
  assumes "F \<noteq> []" and "''hasOwnProperty'' \<in> field_names r"
  shows "createUpdateExpression F r =
    Inl (Error ''TypeError'' ''item.hasOwnProperty is not a function'')"
  unfolding createUpdateExpression_def existing_attributes_shadowed [OF assms]
  by simp

lemma distinct_placeholders: "distinct (map placeholder [0 ..< n])"
  by (simp add: distinct_map inj_on_def placeholder_inj)

text \<open>
  C6 fails on a record that carries a field named \<^verbatim>\<open>hasOwnProperty\<close>, for the same reason
  as C5: the call of line 89 throws. For such a record with the field \<^verbatim>\<open>old\<close>,
  \<^verbatim>\<open>createUpdateExpression\<close> should return the removal of \<^verbatim>\<open>old\<close> and throws a
  \<^verbatim>\<open>TypeError\<close> instead.
\<close>

theorem createUpdateExpression_shadowed_record:
  "createUpdateExpression [''old''] shadow_record =
     Inl (Error ''TypeError'' ''item.hasOwnProperty is not a function'') \<and>
   set [''old''] \<inter> field_names shadow_record \<noteq> {}"
  by (simp add: createUpdateExpression_def hasOwnProperty_def shadow_record_def field_names_def)

text \<open>
  X5. For a record that carries no field named \<^verbatim>\<open>hasOwnProperty\<close>, and for an empty \<open>F\<close>,
  \<^verbatim>\<open>createUpdateExpression\<close> returns, and returns \<^verbatim>\<open>null\<close> exactly when the record has no
  field of \<open>F\<close>. Otherwise the names it maps the placeholders to are the fields of \<open>F\<close>
  that the record carries, in the order of \<open>F\<close>; the placeholders are \<^verbatim>\<open>#attr0\<close>,
  \<^verbatim>\<open>#attr1\<close>, ..., each mapped once; and the expression is \<^verbatim>\<open>REMOVE\<close> followed by those
  placeholders: its text depends on the number of fields only, so no field name is written
  into it. In every other case the call throws the \<^verbatim>\<open>TypeError\<close>.
\<close>

theorem createUpdateExpression_removal:
  "(F = [] \<or> ''hasOwnProperty'' \<notin> field_names r \<longrightarrow>
      (\<exists>v. createUpdateExpression F r = Inr v) \<and>
      (createUpdateExpression F r = Inr None \<longleftrightarrow> set F \<inter> field_names r = {}) \<and>
      (\<forall>u. createUpdateExpression F r = Inr (Some u) \<longrightarrow>
         snd ` set (ExpressionAttributeNames u) = set F \<inter> field_names r \<and>
         map snd (ExpressionAttributeNames u) = filter (\<lambda>attr. attr \<in> field_names r) F \<and>
         map fst (ExpressionAttributeNames u) =
           map placeholder [0 ..< length (ExpressionAttributeNames u)] \<and>
         distinct (map fst (ExpressionAttributeNames u)) \<and>
         UpdateExpression u =
           ''REMOVE '' @
           join '', '' (map placeholder [0 ..< length (ExpressionAttributeNames u)]))) \<and>
   (F \<noteq> [] \<and> ''hasOwnProperty'' \<in> field_names r \<longrightarrow>
      createUpdateExpression F r =
        Inl (Error ''TypeError'' ''item.hasOwnProperty is not a function''))"
proof (intro conjI impI)
  assume "F \<noteq> [] \<and> ''hasOwnProperty'' \<in> field_names r"
  then show "createUpdateExpression F r =
      Inl (Error ''TypeError'' ''item.hasOwnProperty is not a function'')"
    by (intro createUpdateExpression_shadowed) blast+
next
  assume a: "F = [] \<or> ''hasOwnProperty'' \<notin> field_names r"
  note eq = createUpdateExpression_eq [OF a]
  let ?ex = "filter (\<lambda>attr. attr \<in> field_names r) F"
  show "\<exists>v. createUpdateExpression F r = Inr v"
    using eq by simp
  show "createUpdateExpression F r = Inr None \<longleftrightarrow> set F \<inter> field_names r = {}"
    unfolding eq by (auto simp: Let_def filter_empty_conv)
  show "\<forall>u. createUpdateExpression F r = Inr (Some u) \<longrightarrow>
      snd ` set (ExpressionAttributeNames u) = set F \<inter> field_names r \<and>
      map snd (ExpressionAttributeNames u) = ?ex \<and>
      map fst (ExpressionAttributeNames u) =
        map placeholder [0 ..< length (ExpressionAttributeNames u)] \<and>
      distinct (map fst (ExpressionAttributeNames u)) \<and>
      UpdateExpression u =
        ''REMOVE '' @ join '', '' (map placeholder [0 ..< length (ExpressionAttributeNames u)])"
  proof (intro allI impI)
    fix u
    assume "createUpdateExpression F r = Inr (Some u)"
    then have u: "u = \<lparr>UpdateExpression = ''REMOVE '' @ join '', '' (map placeholder [0 ..< length ?ex]),
                    ExpressionAttributeNames = zip (map placeholder [0 ..< length ?ex]) ?ex\<rparr>"
      unfolding eq by (simp add: Let_def split: if_splits)
    have s: "map snd (zip (map placeholder [0 ..< length ?ex]) ?ex) = ?ex"
      by simp
    have f: "map fst (zip (map placeholder [0 ..< length ?ex]) ?ex) = map placeholder [0 ..< length ?ex]"
      by simp
    have "snd ` set (zip (map placeholder [0 ..< length ?ex]) ?ex) = set ?ex"
      using s by (metis set_map)
    then have "snd ` set (ExpressionAttributeNames u) = set F \<inter> field_names r"
      unfolding u by auto
    then show "snd ` set (ExpressionAttributeNames u) = set F \<inter> field_names r \<and>
      map snd (ExpressionAttributeNames u) = ?ex \<and>
      map fst (ExpressionAttributeNames u) =
        map placeholder [0 ..< length (ExpressionAttributeNames u)] \<and>
      distinct (map fst (ExpressionAttributeNames u)) \<and>
      UpdateExpression u =
        ''REMOVE '' @ join '', '' (map placeholder [0 ..< length (ExpressionAttributeNames u)])"
      unfolding u using s f distinct_placeholders [of "length ?ex"] by simp
  qed
qed

text \<open>
  The third record of the example carries two of three configured fields; the second
  carries none.
\<close>

theorem createUpdateExpression_removal_witness:
  "createUpdateExpression [''old'', ''missing'', ''extra''] record3 =
     Inr (Some \<lparr>UpdateExpression = ''REMOVE #attr0, #attr1'',
           ExpressionAttributeNames = [(''#attr0'', ''old''), (''#attr1'', ''extra'')]\<rparr>) \<and>
   set [''old'', ''missing'', ''extra''] \<inter> field_names record3 = {''old'', ''extra''} \<and>
   createUpdateExpression [''old'', ''missing'', ''extra''] record2 = Inr None \<and>
   set [''old'', ''missing'', ''extra''] \<inter> field_names record2 = {}"
proof -
  let ?F = "[''old'', ''missing'', ''extra'']"
  let ?u = "\<lparr>UpdateExpression = ''REMOVE #attr0, #attr1'',
             ExpressionAttributeNames = [(''#attr0'', ''old''), (''#attr1'', ''extra'')]\<rparr>"
  have p3: "?F = [] \<or> ''hasOwnProperty'' \<notin> field_names record3"
    by (simp add: field_names_def record3_def)
  have p2: "?F = [] \<or> ''hasOwnProperty'' \<notin> field_names record2"
    by (simp add: field_names_def record2_def)
  have e: "createUpdateExpression ?F record3 = Inr (Some ?u)"
    by (simp add: createUpdateExpression_def record3_def hasOwnProperty_def placeholder_def
        string_of_nat_small digit_def)
  have n: "createUpdateExpression ?F record2 = Inr None"
    by (simp add: createUpdateExpression_def record2_def hasOwnProperty_def)
  from createUpdateExpression_removal [of ?F record3] p3 e
  have "snd ` set (ExpressionAttributeNames ?u) = set ?F \<inter> field_names record3"
    by blast
  then have "set ?F \<inter> field_names record3 = {''old'', ''extra''}"
    by auto
  moreover from createUpdateExpression_removal [of ?F record2] p2 n
  have "set ?F \<inter> field_names record2 = {}"
    by blast
  ultimately show ?thesis
    using e n by blast
qed

section \<open>Properties of the retrying mutator\<close>

text \<open>
  C10. Called with \<open>maxRetries = 0\<close>, \<^verbatim>\<open>updateItemWithRetry\<close> returns \<^verbatim>\<open>false\<close> and leaves
  the environment as it was: nothing is sent to the store and no sleep is taken.
\<close>

theorem updateItemWithRetry_zero_retries:
  "updateItemWithRetry cfg c tableName key updateExpression 0 w = (Inr False, w)"
  by (simp add: updateItemWithRetry_def updateItemWithRetry_loop.simps)

subsection \<open>The retry loop\<close>

lemma loop_exit:
  "\<not> int attempt < maxRetries \<Longrightarrow>
   updateItemWithRetry_loop cfg c tableName key ue maxRetries attempt w = (Inr False, w)"
  by (subst updateItemWithRetry_loop.simps) simp

lemma loop_success:
  "int attempt < maxRetries \<Longrightarrow> try_update c tableName key ue w = (Inr u, w1) \<Longrightarrow>
   updateItemWithRetry_loop cfg c tableName key ue maxRetries attempt w = (Inr True, w1)"
  by (subst updateItemWithRetry_loop.simps) simp

lemma loop_fail:
  "int attempt < maxRetries \<Longrightarrow> try_update c tableName key ue w = (Inl e, w1) \<Longrightarrow>
   \<not> isThrottle e \<or> maxRetries - 1 \<le> int attempt \<Longrightarrow>
   updateItemWithRetry_loop cfg c tableName key ue maxRetries attempt w = (Inr False, w1)"
  by (subst updateItemWithRetry_loop.simps) auto

lemma loop_retry:
  "int attempt < maxRetries - 1 \<Longrightarrow> try_update c tableName key ue w = (Inl e, w1) \<Longrightarrow>
   isThrottle e \<Longrightarrow> Math_random c w1 = (rnd, w2) \<Longrightarrow>
   updateItemWithRetry_loop cfg c tableName key ue maxRetries attempt w =
   updateItemWithRetry_loop cfg c tableName key ue maxRetries (attempt + 1)
     (delay (calculateBackoffDelay rnd attempt (real_of_int (INITIAL_DELAY cfg))) w2)"
  by (subst updateItemWithRetry_loop.simps) simp

lemma loop_cases:
  obtains
    (exit) "\<not> int attempt < maxRetries"
  | (success) u w1 where "int attempt < maxRetries" "try_update c tableName key ue w = (Inr u, w1)"
  | (fail) e w1 where "int attempt < maxRetries" "try_update c tableName key ue w = (Inl e, w1)"
      "\<not> isThrottle e \<or> maxRetries - 1 \<le> int attempt"
  | (retry) e w1 rnd w2 where "int attempt < maxRetries - 1"
      "try_update c tableName key ue w = (Inl e, w1)" "isThrottle e"
      "Math_random c w1 = (rnd, w2)"
proof (cases "int attempt < maxRetries")
  case False
  then show ?thesis by (rule exit)
next
  case True
  obtain r w1 where t: "try_update c tableName key ue w = (r, w1)"
    by (cases "try_update c tableName key ue w")
  show ?thesis
  proof (cases r)
    case (Inr u)
    with True t show ?thesis by (auto intro: success)
  next
    case (Inl e)
    obtain rnd w2 where m: "Math_random c w1 = (rnd, w2)"
      by (cases "Math_random c w1")
    show ?thesis
    proof (cases "isThrottle e \<and> int attempt < maxRetries - 1")
      case True
      with t Inl m show ?thesis by (auto intro: retry)
    next
      case False
      with True t Inl show ?thesis by (auto intro: fail)
    qed
  qed
qed


lemma updates_sent_append: "updates_sent (xs @ ys) = updates_sent xs @ updates_sent ys"
  by (induction xs rule: updates_sent.induct) simp_all

lemma sleeps_append: "sleeps (xs @ ys) = sleeps xs @ sleeps ys"
  by (induction xs rule: sleeps.induct) simp_all

lemma trace_delay: "trace (delay ms w) = trace w @ [Delay ms]"
  by (simp add: delay_def)

lemma trace_Math_random: "Math_random c w = (rnd, w2) \<Longrightarrow> trace w2 = trace w"
  by (auto simp: Math_random_def split: prod.splits)

lemma try_update_trace:
  "try_update c tableName key ue w = (r, w1) \<Longrightarrow>
   \<exists>added. trace w1 = trace w @ added \<and> length (updates_sent added) \<le> 1 \<and> sleeps added = []"
proof (cases "marshall c key")
  case (Inl e)
  assume "try_update c tableName key ue w = (r, w1)"
  with Inl have "w1 = w" by (simp add: try_update_def)
  then show ?thesis by simp
next
  case (Inr k)
  let ?p = "\<lparr>update_TableName = tableName, Key = k, update_spread = ue, ReturnValues = ''NONE''\<rparr>"
  assume "try_update c tableName key ue w = (r, w1)"
  with Inr have "trace w1 = trace w @ [UpdateSent ?p]"
    by (auto simp: try_update_def sendUpdate_def split: prod.splits)
  moreover have "length (updates_sent [UpdateSent ?p]) \<le> 1 \<and> sleeps [UpdateSent ?p] = []"
    by simp
  ultimately show ?thesis by blast
qed

lemma loop_trace:
  "\<exists>added. trace (snd (updateItemWithRetry_loop cfg c tableName key ue maxRetries attempt w)) =
       trace w @ added \<and>
     length (updates_sent added) \<le> nat (maxRetries - int attempt) \<and>
     length (sleeps added) \<le> nat (maxRetries - int attempt) - 1"
proof (induction "nat (maxRetries - int attempt)" arbitrary: attempt w rule: less_induct)
  case less
  show ?case
  proof (cases rule: loop_cases [where attempt = attempt and maxRetries = maxRetries and c = c
      and tableName = tableName and key = key and ue = ue and w = w])
    case exit
    then show ?thesis by (simp add: loop_exit)
  next
    case (success u w1)
    from try_update_trace [OF success(2)] obtain added where
      a: "trace w1 = trace w @ added" "length (updates_sent added) \<le> 1" "sleeps added = []"
      by blast
    have "1 \<le> nat (maxRetries - int attempt)"
      using success(1) by linarith
    with a show ?thesis
      by (auto simp: loop_success [OF success])
  next
    case (fail e w1)
    from try_update_trace [OF fail(2)] obtain added where
      a: "trace w1 = trace w @ added" "length (updates_sent added) \<le> 1" "sleeps added = []"
      by blast
    have "1 \<le> nat (maxRetries - int attempt)"
      using fail(1) by linarith
    with a show ?thesis
      by (auto simp: loop_fail [OF fail])
  next
    case (retry e w1 rnd w2)
    let ?d = "calculateBackoffDelay rnd attempt (real_of_int (INITIAL_DELAY cfg))"
    let ?w3 = "delay ?d w2"
    from try_update_trace [OF retry(2)] obtain added1 where
      a: "trace w1 = trace w @ added1" "length (updates_sent added1) \<le> 1" "sleeps added1 = []"
      by blast
    have t3: "trace ?w3 = trace w @ added1 @ [Delay ?d]"
      using a(1) trace_Math_random [OF retry(4)] by (simp add: trace_delay)
    have m: "nat (maxRetries - int (attempt + 1)) < nat (maxRetries - int attempt)"
      using retry(1) by linarith
    from less [OF m, of ?w3] obtain added2 where
      b: "trace (snd (updateItemWithRetry_loop cfg c tableName key ue maxRetries (attempt + 1) ?w3)) =
            trace ?w3 @ added2"
        "length (updates_sent added2) \<le> nat (maxRetries - int (attempt + 1))"
        "length (sleeps added2) \<le> nat (maxRetries - int (attempt + 1)) - 1"
      by blast
    let ?added = "added1 @ [Delay ?d] @ added2"
    have 1: "trace (snd (updateItemWithRetry_loop cfg c tableName key ue maxRetries attempt w)) =
        trace w @ ?added"
      using b(1) t3 by (simp only: loop_retry [OF retry] append_assoc)
    have 2: "length (updates_sent ?added) \<le> nat (maxRetries - int attempt)"
      using a(2) b(2) retry(1) by (simp add: updates_sent_append)
    have 3: "length (sleeps ?added) \<le> nat (maxRetries - int attempt) - 1"
      using a(3) b(3) retry(1) by (simp add: sleeps_append)
    from 1 2 3 show ?thesis by blast
  qed
qed



lemma try_update_sent:
  "marshall c key = Inr k \<Longrightarrow>
   send_update c \<lparr>update_TableName = tableName, Key = k, update_spread = ue,
                   ReturnValues = ''NONE''\<rparr> s = (r, s') \<Longrightarrow>
   try_update c tableName key ue \<lparr>ext = s, trace = tr\<rparr> =
     (r, \<lparr>ext = s', trace = tr @ [UpdateSent \<lparr>update_TableName = tableName, Key = k,
                                  update_spread = ue, ReturnValues = ''NONE''\<rparr>]\<rparr>)"
  by (simp add: try_update_def sendUpdate_def)

lemma Math_random_draw:
  "random c s = (rnd, s') \<Longrightarrow>
   Math_random c \<lparr>ext = s, trace = tr\<rparr> = (rnd, \<lparr>ext = s', trace = tr\<rparr>)"
  by (simp add: Math_random_def)

lemma delay_world: "delay ms \<lparr>ext = s, trace = tr\<rparr> = \<lparr>ext = s, trace = tr @ [Delay ms]\<rparr>"
  by (simp add: delay_def)

lemma two_throttles_then_success:
  assumes k: "marshall c key = Inr k"
    and p: "p = \<lparr>update_TableName = tableName, Key = k, update_spread = ue,
                  ReturnValues = ''NONE''\<rparr>"
    and s0: "send_update c p s0 = (Inl e1, s1)" and e1: "isThrottle e1"
    and r1: "random c s1 = (r1, s2)"
    and s2: "send_update c p s2 = (Inl e2, s3)" and e2: "isThrottle e2"
    and r2: "random c s3 = (r2, s4)"
    and s4: "send_update c p s4 = (Inr (), s5)"
  shows "updateItemWithRetry cfg c tableName key ue 3 \<lparr>ext = s0, trace = tr\<rparr> =
     (Inr True,
      \<lparr>ext = s5,
       trace = tr @
         [UpdateSent p, Delay (calculateBackoffDelay r1 0 (real_of_int (INITIAL_DELAY cfg))),
          UpdateSent p, Delay (calculateBackoffDelay r2 1 (real_of_int (INITIAL_DELAY cfg))),
          UpdateSent p]\<rparr>)"
proof -
  let ?d0 = "calculateBackoffDelay r1 0 (real_of_int (INITIAL_DELAY cfg))"
  let ?d1 = "calculateBackoffDelay r2 1 (real_of_int (INITIAL_DELAY cfg))"
  have t0: "try_update c tableName key ue \<lparr>ext = s0, trace = tr\<rparr> =
      (Inl e1, \<lparr>ext = s1, trace = tr @ [UpdateSent p]\<rparr>)"
    using try_update_sent [OF k, of tableName ue s0 "Inl e1" s1 tr] s0 unfolding p by simp
  have m0: "Math_random c \<lparr>ext = s1, trace = tr @ [UpdateSent p]\<rparr> =
      (r1, \<lparr>ext = s2, trace = tr @ [UpdateSent p]\<rparr>)"
    using r1 by (rule Math_random_draw)
  have t1: "try_update c tableName key ue \<lparr>ext = s2, trace = tr @ [UpdateSent p, Delay ?d0]\<rparr> =
      (Inl e2, \<lparr>ext = s3, trace = tr @ [UpdateSent p, Delay ?d0, UpdateSent p]\<rparr>)"
    using try_update_sent [OF k, of tableName ue s2 "Inl e2" s3 "tr @ [UpdateSent p, Delay ?d0]"] s2
    unfolding p by simp
  have m1: "Math_random c \<lparr>ext = s3, trace = tr @ [UpdateSent p, Delay ?d0, UpdateSent p]\<rparr> =
      (r2, \<lparr>ext = s4, trace = tr @ [UpdateSent p, Delay ?d0, UpdateSent p]\<rparr>)"
    using r2 by (rule Math_random_draw)
  have t2: "try_update c tableName key ue
        \<lparr>ext = s4, trace = tr @ [UpdateSent p, Delay ?d0, UpdateSent p, Delay ?d1]\<rparr> =
      (Inr (), \<lparr>ext = s5,
         trace = tr @ [UpdateSent p, Delay ?d0, UpdateSent p, Delay ?d1, UpdateSent p]\<rparr>)"
    using try_update_sent [OF k, of tableName ue s4 "Inr ()" s5
        "tr @ [UpdateSent p, Delay ?d0, UpdateSent p, Delay ?d1]"] s4
    unfolding p by simp
  have "updateItemWithRetry_loop cfg c tableName key ue 3 0 \<lparr>ext = s0, trace = tr\<rparr> =
      updateItemWithRetry_loop cfg c tableName key ue 3 1
        \<lparr>ext = s2, trace = tr @ [UpdateSent p, Delay ?d0]\<rparr>"
    using loop_retry [OF _ t0 e1 m0, of 0 3 cfg] by (simp add: delay_world)
  also have "\<dots> = updateItemWithRetry_loop cfg c tableName key ue 3 (Suc (Suc 0))
        \<lparr>ext = s4, trace = tr @ [UpdateSent p, Delay ?d0, UpdateSent p, Delay ?d1]\<rparr>"
    using loop_retry [OF _ t1 e2 m1, of "Suc 0" 3 cfg] by (simp add: delay_world)
  also have "\<dots> = (Inr True, \<lparr>ext = s5,
         trace = tr @ [UpdateSent p, Delay ?d0, UpdateSent p, Delay ?d1, UpdateSent p]\<rparr>)"
    using loop_success [OF _ t2, of "Suc (Suc 0)" 3 cfg] by simp
  finally show ?thesis
    by (simp add: updateItemWithRetry_def)
qed

text \<open>
  C3. With \<open>maxRetries = 3\<close>, when the store throttles the first two requests and serves
  the third, \<^verbatim>\<open>updateItemWithRetry\<close> returns \<^verbatim>\<open>true\<close> after exactly three requests and two
  sleeps, the first computed with attempt 0 and the second with attempt 1. In general a
  throttle with \<open>attempt < maxRetries - 1\<close> leads to a sleep computed with the current
  attempt and to the next pass of the loop with the attempt incremented; and no call sends
  more than \<open>maxRetries\<close> requests or takes more than \<open>maxRetries - 1\<close> sleeps.
\<close>

theorem updateItemWithRetry_retries:
  "(marshall c key = Inr k \<and>
    p = \<lparr>update_TableName = tableName, Key = k, update_spread = ue, ReturnValues = ''NONE''\<rparr> \<and>
    send_update c p s0 = (Inl e1, s1) \<and> isThrottle e1 \<and> random c s1 = (r1, s2) \<and>
    send_update c p s2 = (Inl e2, s3) \<and> isThrottle e2 \<and> random c s3 = (r2, s4) \<and>
    send_update c p s4 = (Inr (), s5) \<longrightarrow>
    updateItemWithRetry cfg c tableName key ue 3 \<lparr>ext = s0, trace = tr\<rparr> =
      (Inr True,
       \<lparr>ext = s5,
        trace = tr @
          [UpdateSent p, Delay (calculateBackoffDelay r1 0 (real_of_int (INITIAL_DELAY cfg))),
           UpdateSent p, Delay (calculateBackoffDelay r2 1 (real_of_int (INITIAL_DELAY cfg))),
           UpdateSent p]\<rparr>)) \<and>
   (int attempt < maxRetries - 1 \<and> try_update c tableName key ue w = (Inl e, w1) \<and>
    isThrottle e \<and> Math_random c w1 = (rnd, w2) \<longrightarrow>
    updateItemWithRetry_loop cfg c tableName key ue maxRetries attempt w =
      updateItemWithRetry_loop cfg c tableName key ue maxRetries (attempt + 1)
        (delay (calculateBackoffDelay rnd attempt (real_of_int (INITIAL_DELAY cfg))) w2)) \<and>
   (\<exists>added.
      trace (snd (updateItemWithRetry cfg c tableName key ue maxRetries w)) = trace w @ added \<and>
      length (updates_sent added) \<le> nat maxRetries \<and>
      length (sleeps added) \<le> nat maxRetries - 1)"
proof (intro conjI impI)
  assume "marshall c key = Inr k \<and>
    p = \<lparr>update_TableName = tableName, Key = k, update_spread = ue, ReturnValues = ''NONE''\<rparr> \<and>
    send_update c p s0 = (Inl e1, s1) \<and> isThrottle e1 \<and> random c s1 = (r1, s2) \<and>
    send_update c p s2 = (Inl e2, s3) \<and> isThrottle e2 \<and> random c s3 = (r2, s4) \<and>
    send_update c p s4 = (Inr (), s5)"
  then show "updateItemWithRetry cfg c tableName key ue 3 \<lparr>ext = s0, trace = tr\<rparr> =
      (Inr True,
       \<lparr>ext = s5,
        trace = tr @
          [UpdateSent p, Delay (calculateBackoffDelay r1 0 (real_of_int (INITIAL_DELAY cfg))),
           UpdateSent p, Delay (calculateBackoffDelay r2 1 (real_of_int (INITIAL_DELAY cfg))),
           UpdateSent p]\<rparr>)"
    by (intro two_throttles_then_success) blast+
next
  assume "int attempt < maxRetries - 1 \<and> try_update c tableName key ue w = (Inl e, w1) \<and>
    isThrottle e \<and> Math_random c w1 = (rnd, w2)"
  then show "updateItemWithRetry_loop cfg c tableName key ue maxRetries attempt w =
      updateItemWithRetry_loop cfg c tableName key ue maxRetries (attempt + 1)
        (delay (calculateBackoffDelay rnd attempt (real_of_int (INITIAL_DELAY cfg))) w2)"
    by (intro loop_retry) blast+
next
  show "\<exists>added.
      trace (snd (updateItemWithRetry cfg c tableName key ue maxRetries w)) = trace w @ added \<and>
      length (updates_sent added) \<le> nat maxRetries \<and>
      length (sleeps added) \<le> nat maxRetries - 1"
    using loop_trace [of cfg c tableName key ue maxRetries 0 w]
    by (simp add: updateItemWithRetry_def)
qed

text \<open>
  The store that throttles twice, with the default base of 100 ms and draws of one half:
  the sleeps are of 600 and 700 ms.
\<close>

theorem updateItemWithRetry_retries_witness:
  "updateItemWithRetry default_config (throttle_first 2) ''devices'' key1 (Some remove_old) 3 start =
     (Inr True,
      \<lparr>ext = 3,
       trace = [UpdateSent update1, Delay 600, UpdateSent update1, Delay 700, UpdateSent update1]\<rparr>) \<and>
   length (updates_sent
     [UpdateSent update1, Delay 600, UpdateSent update1, Delay 700, UpdateSent update1 :: (nat, js_object) event]) = 3 \<and>
   sleeps [UpdateSent update1, Delay 600, UpdateSent update1, Delay 700, UpdateSent update1 :: (nat, js_object) event] =
     [600, 700]"
proof -
  let ?e = "Error ''ThrottlingException'' ''Rate exceeded''"
  note inst = updateItemWithRetry_retries [where c = "throttle_first 2" and key = key1 and k = key1
      and p = update1 and tableName = "''devices''" and ue = "Some remove_old"
      and ?s0.0 = 0 and ?e1.0 = "?e" and ?s1.0 = 1 and ?r1.0 = "1 / 2" and ?s2.0 = 1
      and ?e2.0 = "?e" and ?s3.0 = 2 and ?r2.0 = "1 / 2" and ?s4.0 = 2 and ?s5.0 = 3
      and cfg = default_config and tr = "[]"]
  have h: "marshall (throttle_first 2) key1 = Inr key1 \<and>
    update1 = \<lparr>update_TableName = ''devices'', Key = key1, update_spread = Some remove_old,
                ReturnValues = ''NONE''\<rparr> \<and>
    send_update (throttle_first 2) update1 0 = (Inl ?e, 1) \<and> isThrottle ?e \<and>
    random (throttle_first 2) 1 = (1 / 2, 1) \<and>
    send_update (throttle_first 2) update1 1 = (Inl ?e, 2) \<and> isThrottle ?e \<and>
    random (throttle_first 2) 2 = (1 / 2, 2) \<and>
    send_update (throttle_first 2) update1 2 = (Inr (), 3)"
    by (simp add: throttle_first_def update1_def isThrottle_def)
  from inst h have "updateItemWithRetry default_config (throttle_first 2) ''devices'' key1
      (Some remove_old) 3 \<lparr>ext = 0, trace = []\<rparr> =
     (Inr True,
      \<lparr>ext = 3,
       trace = [] @
         [UpdateSent update1,
          Delay (calculateBackoffDelay (1 / 2) 0 (real_of_int (INITIAL_DELAY default_config))),
          UpdateSent update1,
          Delay (calculateBackoffDelay (1 / 2) 1 (real_of_int (INITIAL_DELAY default_config))),
          UpdateSent update1]\<rparr>)"
    by blast
  then show ?thesis
    by (simp add: start_def calculateBackoffDelay_def default_config_def)
qed

section \<open>Properties of the batch scheduler\<close>

subsection \<open>Grouping\<close>

lemma chunks_Nil: "chunks n [] = []"
  by (simp add: chunks.simps)

lemma chunks_step: "0 < n \<Longrightarrow> xs \<noteq> [] \<Longrightarrow> chunks n xs = take n xs # chunks n (drop n xs)"
  by (subst chunks.simps) simp

lemma concat_chunks: "0 < n \<Longrightarrow> concat (chunks n xs) = xs"
proof (induction n xs rule: chunks.induct)
  case (1 n xs)
  show ?case
  proof (cases "xs = []")
    case True
    then show ?thesis by (simp add: chunks_Nil)
  next
    case False
    with 1 show ?thesis by (simp add: chunks_step)
  qed
qed

lemma div_round_up_step:
  fixes n l :: nat
  assumes n: "0 < n" and l: "0 < l"
  shows "(l + n - 1) div n = Suc ((l - 1) div n)"
proof -
  have nz: "n \<noteq> 0"
    using n by simp
  have e: "l + n - 1 = (l - 1) + n"
    using l by linarith
  have "((l - 1) + n) div n = (l - 1) div n + 1"
    using nz by (rule div_add_self2)
  then show ?thesis
    unfolding e by (simp only: Suc_eq_plus1)
qed

lemma div_round_up_rest:
  fixes n l :: nat
  assumes n: "0 < n" and l: "0 < l"
  shows "(l - n + n - 1) div n = (l - 1) div n"
proof (cases "n \<le> l")
  case True
  then have "l - n + n = l" by linarith
  then show ?thesis by (simp only:)
next
  case False
  then have "l - n + n - 1 < n" "l - 1 < n" using n by linarith+
  then show ?thesis by (simp only: div_less)
qed

lemma ceiling_div_nat:
  assumes n: "0 < n"
  shows "int ((m + n - 1) div n) = \<lceil>real m / real n\<rceil>"
proof -
  define c where "c = (m + n - 1) div n"
  have "m + n - 1 < n + c * n"
    unfolding c_def using n by (rule dividend_less_div_times)
  then have a: "m \<le> c * n" using n by linarith
  have "c * n \<le> m + n - 1"
    unfolding c_def by (rule div_times_less_eq_dividend)
  then have b: "c * n < m + n" using n by linarith
  from a have "real m \<le> real (c * n)"
    by (simp only: of_nat_le_iff)
  then have "real m \<le> real c * real n"
    by (simp only: of_nat_mult)
  then have u: "real m / real n \<le> real c"
    using n by (simp only: pos_divide_le_eq of_nat_0_less_iff)
  from b have "real (c * n) < real (m + n)"
    by (simp only: of_nat_less_iff)
  then have "real c * real n < real m + real n"
    by (simp only: of_nat_mult of_nat_add)
  then have "(real c - 1) * real n < real m"
    by (simp only: left_diff_distrib mult_1 diff_less_eq)
  then have l: "real c - 1 < real m / real n"
    using n by (simp only: pos_less_divide_eq of_nat_0_less_iff)
  have "\<lceil>real m / real n\<rceil> = int c"
  proof (rule ceiling_unique)
    show "real_of_int (int c) - 1 < real m / real n" using l by simp
    show "real m / real n \<le> real_of_int (int c)" using u by simp
  qed
  then show ?thesis unfolding c_def by simp
qed

lemma length_chunks: "0 < n \<Longrightarrow> length (chunks n xs) = (length xs + n - 1) div n"
proof (induction n xs rule: chunks.induct)
  case (1 n xs)
  show ?case
  proof (cases "xs = []")
    case True
    with 1(2) show ?thesis by (simp add: chunks_Nil)
  next
    case False
    then have pos: "0 < length xs" by simp
    have c: "chunks n xs = take n xs # chunks n (drop n xs)"
      using 1(2) False by (rule chunks_step)
    have "length (chunks n (drop n xs)) = (length (drop n xs) + n - 1) div n"
      using 1 False by blast
    also have "\<dots> = (length xs - n + n - 1) div n"
      by simp
    also have "\<dots> = (length xs - 1) div n"
      using 1(2) pos by (rule div_round_up_rest)
    finally have "length (chunks n xs) = Suc ((length xs - 1) div n)"
      unfolding c by simp
    also have "\<dots> = (length xs + n - 1) div n"
      using div_round_up_step [OF 1(2) pos] by simp
    finally show ?thesis .
  qed
qed

lemma chunks_sizes: "0 < n \<Longrightarrow> b \<in> set (chunks n xs) \<Longrightarrow> b \<noteq> [] \<and> length b \<le> n"
proof (induction n xs rule: chunks.induct)
  case (1 n xs)
  show ?case
  proof (cases "xs = []")
    case True
    with 1(3) show ?thesis by (simp add: chunks_Nil)
  next
    case False
    have c: "chunks n xs = take n xs # chunks n (drop n xs)"
      using 1(2) False by (rule chunks_step)
    from 1(3) have "b = take n xs \<or> b \<in> set (chunks n (drop n xs))"
      unfolding c by simp
    then show ?thesis
    proof
      assume "b = take n xs"
      with 1(2) False show ?thesis by simp
    next
      assume "b \<in> set (chunks n (drop n xs))"
      with 1(1) 1(2) False show ?thesis by blast
    qed
  qed
qed

lemma chunks_full:
  "0 < n \<Longrightarrow> Suc k < length (chunks n xs) \<Longrightarrow> length (chunks n xs ! k) = n"
proof (induction n xs arbitrary: k rule: chunks.induct)
  case (1 n xs)
  show ?case
  proof (cases "xs = []")
    case True
    with 1(3) show ?thesis by (simp add: chunks_Nil)
  next
    case False
    note ne = this
    have c: "chunks n xs = take n xs # chunks n (drop n xs)"
      using 1(2) ne by (rule chunks_step)
    show ?thesis
    proof (cases k)
      case 0
      with 1(3) c have "chunks n (drop n xs) \<noteq> []" by auto
      then have "drop n xs \<noteq> []" by (auto simp: chunks_Nil)
      then have "n < length xs" by simp
      with 0 c show ?thesis by simp
    next
      case (Suc j)
      with 1(3) c have "Suc j < length (chunks n (drop n xs))" by simp
      with 1(1) 1(2) ne have "length (chunks n (drop n xs) ! j) = n" by simp
      with Suc c show ?thesis by simp
    qed
  qed
qed

lemma slice_batch:
  "0 \<le> i \<Longrightarrow> 0 < B \<Longrightarrow> i < int (length xs) \<Longrightarrow>
   slice xs i (i + B) = take (nat B) (drop (nat i) xs)"
  by (auto simp: slice_def Let_def min_def)

lemma make_batches_chunks:
  "0 < B \<Longrightarrow> 0 \<le> i \<Longrightarrow>
   make_batches B items i acc = Some (acc @ chunks (nat B) (drop (nat i) items))"
proof (induction "length items - nat i" arbitrary: i acc rule: less_induct)
  case less
  show ?case
  proof (cases "i < int (length items)")
    case True
    have d: "drop (nat i) items \<noteq> []"
      using True less.prems by simp
    have m: "length items - nat (i + B) < length items - nat i"
      using True less.prems by linarith
    have "make_batches B items i acc =
          make_batches B items (i + B) (acc @ [slice items i (i + B)])"
      using True by (subst make_batches.simps) simp
    also have "\<dots> = Some ((acc @ [slice items i (i + B)]) @
                        chunks (nat B) (drop (nat (i + B)) items))"
      using less.hyps [OF m] less.prems by simp
    also have "drop (nat (i + B)) items = drop (nat B) (drop (nat i) items)"
      using less.prems by (simp add: nat_add_distrib add.commute)
    finally show ?thesis
      using d less.prems True by (simp add: chunks_step slice_batch)
  next
    case False
    then have "drop (nat i) items = []"
      using less.prems by simp
    with False show ?thesis
      by (subst make_batches.simps) (simp add: chunks_Nil)
  qed
qed

lemma make_batches_eq_chunks: "0 < B \<Longrightarrow> make_batches B items 0 [] = Some (chunks (nat B) items)"
  using make_batches_chunks [of B 0 items "[]"] by simp

lemma length_chunks_ceiling: "0 < B \<Longrightarrow> int (length (chunks (nat B) items)) = \<lceil>real (length items) / real_of_int B\<rceil>"
proof -
  assume B: "0 < B"
  then have n: "0 < nat B" by simp
  have r: "real (nat B) = real_of_int B"
    using B by simp
  have "int (length (chunks (nat B) items)) = \<lceil>real (length items) / real (nat B)\<rceil>"
    unfolding length_chunks [OF n] by (rule ceiling_div_nat [OF n])
  then show ?thesis
    unfolding r .
qed

lemma chunks_full_int: "0 < B \<Longrightarrow> Suc k < length (chunks (nat B) items) \<Longrightarrow> int (length (chunks (nat B) items ! k)) = B"
  using chunks_full [of "nat B" k items] by simp

lemma chunks_sizes_int: "0 < B \<Longrightarrow> b \<in> set (chunks (nat B) items) \<Longrightarrow> b \<noteq> [] \<and> int (length b) \<le> B"
  using chunks_sizes [of "nat B" b items] by auto

text \<open>
  C8. For a positive batch size \<open>B\<close> the grouping loop of \<^verbatim>\<open>processItemsInBatches\<close> ends, and
  its groups, concatenated in order, are the input list; there are \<open>\<lceil>n / B\<rceil>\<close> of them;
  every group but the last has exactly \<open>B\<close> elements, and no group is empty or larger
  than \<open>B\<close>.
\<close>

theorem make_batches_partition:
  "0 < B \<Longrightarrow>
     (\<exists>batches. make_batches B items 0 [] = Some batches \<and>
        concat batches = items \<and>
        int (length batches) = \<lceil>real (length items) / real_of_int B\<rceil> \<and>
        (\<forall>k. Suc k < length batches \<longrightarrow> int (length (batches ! k)) = B) \<and>
        (\<forall>b \<in> set batches. b \<noteq> [] \<and> int (length b) \<le> B))"
proof -
  assume B: "0 < B"
  then have n: "0 < nat B" by simp
  let ?bs = "chunks (nat B) items"
  have 1: "make_batches B items 0 [] = Some ?bs"
    using B by (rule make_batches_eq_chunks)
  have 2: "concat ?bs = items"
    using n by (rule concat_chunks)
  have 3: "int (length ?bs) = \<lceil>real (length items) / real_of_int B\<rceil>"
    using B by (rule length_chunks_ceiling)
  have 4: "\<forall>k. Suc k < length ?bs \<longrightarrow> int (length (?bs ! k)) = B"
    using chunks_full_int [OF B] by blast
  have 5: "\<forall>b \<in> set ?bs. b \<noteq> [] \<and> int (length b) \<le> B"
    using chunks_sizes_int [OF B] by blast
  show ?thesis
    by (intro exI [of _ ?bs] conjI 1 2 3 4 5)
qed

lemma make_batches_example:
  "make_batches 2 [a, b, c] 0 [] = Some [[a, b], [c]]"
proof -
  have "make_batches 2 [a, b, c] 0 [] = make_batches 2 [a, b, c] 2 [[a, b]]"
    by (subst make_batches.simps) (simp add: slice_def)
  also have "\<dots> = make_batches 2 [a, b, c] 4 [[a, b], [c]]"
    by (subst make_batches.simps) (simp add: slice_def)
  also have "\<dots> = Some [[a, b], [c]]"
    by (subst make_batches.simps) simp
  finally show ?thesis .
qed

text \<open>Three records in batches of two: one full group and a last group of one.\<close>

theorem make_batches_partition_witness:
  "make_batches 2 [record1, record2, record3] 0 [] = Some [[record1, record2], [record3]] \<and>
   concat [[record1, record2], [record3]] = [record1, record2, record3] \<and>
   int (length [[record1, record2], [record3]]) =
     \<lceil>real (length [record1, record2, record3]) / real_of_int 2\<rceil> \<and>
   int (length ([[record1, record2], [record3]] ! 0)) = 2"
proof -
  let ?items = "[record1, record2, record3]"
  let ?bs = "[[record1, record2], [record3]]"
  have m: "make_batches 2 ?items 0 [] = Some ?bs"
    by (rule make_batches_example)
  have "(0::int) < 2" by simp
  from make_batches_partition [OF this, of ?items] m
  have p: "concat ?bs = ?items \<and>
      int (length ?bs) = \<lceil>real (length ?items) / real_of_int 2\<rceil> \<and>
      (\<forall>k. Suc k < length ?bs \<longrightarrow> int (length (?bs ! k)) = 2)"
    by auto
  then have "Suc 0 < length ?bs \<longrightarrow> int (length (?bs ! 0)) = 2"
    by blast
  then have "int (length (?bs ! 0)) = 2"
    by simp
  with m p show ?thesis
    by blast
qed


subsection \<open>The promises of a batch\<close>









lemma catch_update_state:
  "catch_update cfg c M attempt e w = (st, w') \<Longrightarrow> st = Sleeping attempt \<or> st = Resolved False"
  by (auto simp: catch_update_def Let_def split: if_splits prod.splits)


lemma begin_attempt_state:
  "begin_attempt cfg c tableName key ue M attempt w = (st, w') \<Longrightarrow>
   st = Resolved False \<or> st = Sleeping attempt \<or> (\<exists>outcome. st = Waiting attempt outcome)"
  by (auto simp: begin_attempt_def dest: catch_update_state split: if_splits sum.splits prod.splits)



lemma resume_not_rejected:
  assumes "resume cfg c tableName key ue M st w = (st', w')" and "\<forall>e. st \<noteq> Rejected e"
  shows "\<forall>e. st' \<noteq> Rejected e"
proof (cases st)
  case (Waiting attempt outcome)
  with assms(1) show ?thesis
    by (cases outcome) (auto simp: resume_def dest: catch_update_state)
next
  case (Sleeping attempt)
  with assms(1) show ?thesis
    by (auto simp: resume_def dest: begin_attempt_state)
next
  case (Resolved b)
  with assms(1) show ?thesis by (auto simp: resume_def)
next
  case (Rejected e)
  with assms(2) show ?thesis by simp
qed


lemma pending_mem:
  "i \<in> set (pending tasks) \<longleftrightarrow> i < length tasks \<and> is_pending (task_state (tasks ! i))"
  by (auto simp: pending_def)

lemma pick_mem: "ready \<noteq> [] \<Longrightarrow> pick sched step ready \<in> set ready"
  by (simp add: pick_def)

lemma drain_done:
  "pending tasks = [] \<Longrightarrow> drain sched cfg c tableName tasks step w = (tasks, step, w)"
  by (subst drain.simps) simp

lemma drain_step:
  "pending tasks \<noteq> [] \<Longrightarrow>
   advance cfg c tableName tasks (pick sched step (pending tasks)) w = (tasks1, w1) \<Longrightarrow>
   drain sched cfg c tableName tasks step w = drain sched cfg c tableName tasks1 (step + 1) w1"
  by (subst drain.simps) simp

lemma advance_resume:
  assumes "advance cfg c tableName tasks i w = (tasks1, w1)"
  obtains st where
    "resume cfg c tableName (task_key (tasks ! i)) (task_update (tasks ! i)) (MAX_RETRIES cfg)
       (task_state (tasks ! i)) w = (st, w1)"
    "tasks1 = tasks[i := (tasks ! i)\<lparr>task_state := st\<rparr>]"
  using assms by (auto simp: advance_def Let_def split: prod.splits)

lemma task_keys_update:
  "map task_key (ts[i := (ts ! i)\<lparr>task_state := st\<rparr>]) = map task_key ts"
proof (cases "i < length ts")
  case True
  have "(map task_key ts)[i := map task_key ts ! i] = map task_key ts"
    by (rule list_update_id)
  with True show ?thesis
    by (simp add: map_update)
next
  case False
  then have "ts[i := (ts ! i)\<lparr>task_state := st\<rparr>] = ts"
    by (intro list_update_beyond) simp
  then show ?thesis by simp
qed

lemma drain_invariant:
  assumes d: "drain sched cfg c tableName tasks step w = (settled, step', w')"
    and init: "I tasks w"
    and keep: "\<And>tasks w i tasks1 w1. I tasks w \<Longrightarrow> i < length tasks \<Longrightarrow>
      is_pending (task_state (tasks ! i)) \<Longrightarrow>
      advance cfg c tableName tasks i w = (tasks1, w1) \<Longrightarrow> I tasks1 w1"
  shows "I settled w' \<and> pending settled = []"
  using d init keep
proof (induction sched cfg c tableName tasks step w rule: drain.induct)
  case (1 sched cfg c tableName tasks step w)
  show ?case
  proof (cases "pending tasks = []")
    case True
    with "1.prems" show ?thesis
      by (simp add: drain_done)
  next
    case False
    obtain tasks1 w1 where
      a: "advance cfg c tableName tasks (pick sched step (pending tasks)) w = (tasks1, w1)"
      by (cases "advance cfg c tableName tasks (pick sched step (pending tasks)) w")
    from pick_mem [OF False] have
      i: "pick sched step (pending tasks) < length tasks"
        "is_pending (task_state (tasks ! pick sched step (pending tasks)))"
      by (simp_all add: pending_mem)
    have inv: "I tasks1 w1"
      using "1.prems"(2) i a by (rule "1.prems"(3))
    have "drain sched cfg c tableName tasks1 (step + 1) w1 = (settled, step', w')"
      using "1.prems"(1) drain_step [OF False a] by simp
    from "1.IH" [OF False a [symmetric] this inv "1.prems"(3)] show ?thesis .
  qed
qed

lemma drain_shape:
  fixes c :: "('s, 'r, 'k, 'm) client" and w :: "('s, 'k, 'm) world"
  assumes d: "drain sched cfg c tableName tasks step w = (settled, step', w')"
  shows "map task_key settled = map task_key tasks \<and> length settled = length tasks"
proof -
  let ?I = "\<lambda>ts (w :: ('s, 'k, 'm) world).
    map task_key ts = map task_key tasks \<and> length ts = length tasks"
  have "?I settled w' \<and> pending settled = []"
  proof (rule drain_invariant [OF d, where I = ?I])
    show "?I tasks w" by simp
  next
    fix ts w i ts1 w1
    assume I: "?I ts w" and i: "i < length ts"
      and a: "advance cfg c tableName ts i w = (ts1, w1)"
    from a obtain st where "ts1 = ts[i := (ts ! i)\<lparr>task_state := st\<rparr>]"
      by (rule advance_resume)
    with I show "?I ts1 w1"
      by (simp add: task_keys_update)
  qed
  then show ?thesis by simp
qed

lemma drain_settled:
  fixes c :: "('s, 'r, 'k, 'm) client" and w :: "('s, 'k, 'm) world"
  assumes d: "drain sched cfg c tableName tasks step w = (settled, step', w')"
    and n: "\<forall>t \<in> set tasks. \<forall>e. task_state t \<noteq> Rejected e"
  shows "\<forall>t \<in> set settled. \<exists>b. task_state t = Resolved b"
proof -
  let ?I = "\<lambda>ts (w :: ('s, 'k, 'm) world). \<forall>t \<in> set ts. \<forall>e. task_state t \<noteq> Rejected e"
  have r: "?I settled w' \<and> pending settled = []"
  proof (rule drain_invariant [OF d, where I = ?I])
    show "?I tasks w" by (rule n)
  next
    fix ts w i ts1 w1
    assume I: "?I ts w" and i: "i < length ts"
      and a: "advance cfg c tableName ts i w = (ts1, w1)"
    from a obtain st where
      r: "resume cfg c tableName (task_key (ts ! i)) (task_update (ts ! i)) (MAX_RETRIES cfg)
         (task_state (ts ! i)) w = (st, w1)"
      and t: "ts1 = ts[i := (ts ! i)\<lparr>task_state := st\<rparr>]"
      by (rule advance_resume)
    from I i have "\<forall>e. task_state (ts ! i) \<noteq> Rejected e"
      by simp
    from resume_not_rejected [OF r this] have "\<forall>e. st \<noteq> Rejected e" .
    with I show "?I ts1 w1"
      unfolding t using set_update_subset_insert [of ts i] by fastforce
  qed
  show ?thesis
  proof
    fix t
    assume m: "t \<in> set settled"
    then obtain i where i: "i < length settled" "settled ! i = t"
      by (auto simp: in_set_conv_nth)
    with r have "\<not> is_pending (task_state t)"
      using pending_mem [of i settled] by auto
    moreover from r m have "\<forall>e. task_state t \<noteq> Rejected e"
      by simp
    ultimately show "\<exists>b. task_state t = Resolved b"
      by (cases "task_state t") simp_all
  qed
qed



lemma start_item_key:
  "start_item cfg c tableName attrs ks item w = (t, w1) \<Longrightarrow> task_key t = item_key ks item"
  by (auto simp: start_item_def Let_def split: sum.splits prod.splits)


lemma start_item_state:
  assumes "start_item cfg c tableName attrs ks item w = (t, w1)"
    and "createUpdateExpression attrs item = Inr ue"
  shows "\<forall>e. task_state t \<noteq> Rejected e"
  using assms
  by (auto simp: start_item_def Let_def dest: begin_attempt_state split: prod.splits)


lemma start_all_Cons:
  assumes "start_all cfg c tableName attrs ks (item # rest) w = (tasks, w2)"
  obtains t w1 ts where
    "start_item cfg c tableName attrs ks item w = (t, w1)"
    "start_all cfg c tableName attrs ks rest w1 = (ts, w2)"
    "tasks = t # ts"
  using assms by (auto split: prod.splits)

lemma start_all_shape:
  "start_all cfg c tableName attrs ks batch w = (tasks, w1) \<Longrightarrow>
   map task_key tasks = map (item_key ks) batch"
proof (induction batch arbitrary: w tasks)
  case Nil
  then show ?case by simp
next
  case (Cons item rest)
  from Cons.prems obtain t w0 ts where
    s: "start_item cfg c tableName attrs ks item w = (t, w0)"
    and r: "start_all cfg c tableName attrs ks rest w0 = (ts, w1)"
    and t: "tasks = t # ts"
    by (rule start_all_Cons)
  from start_item_key [OF s] Cons.IH [OF r] t show ?case
    by simp
qed


lemma start_all_state:
  "start_all cfg c tableName attrs ks batch w = (tasks, w1) \<Longrightarrow>
   \<forall>item \<in> set batch. \<exists>ue. createUpdateExpression attrs item = Inr ue \<Longrightarrow>
   \<forall>t \<in> set tasks. \<forall>e. task_state t \<noteq> Rejected e"
proof (induction batch arbitrary: w tasks)
  case Nil
  then show ?case by simp
next
  case (Cons item rest)
  from Cons.prems(1) obtain t w0 ts where
    s: "start_item cfg c tableName attrs ks item w = (t, w0)"
    and r: "start_all cfg c tableName attrs ks rest w0 = (ts, w1)"
    and t: "tasks = t # ts"
    by (rule start_all_Cons)
  from Cons.prems(2) obtain ue where "createUpdateExpression attrs item = Inr ue"
    by auto
  from start_item_state [OF s this] have "\<forall>e. task_state t \<noteq> Rejected e" .
  moreover from Cons.prems(2) have "\<forall>item \<in> set rest. \<exists>ue. createUpdateExpression attrs item = Inr ue"
    by simp
  from Cons.IH [OF r this] have "\<forall>t \<in> set ts. \<forall>e. task_state t \<noteq> Rejected e" .
  ultimately show ?case
    using t by simp
qed


lemma first_rejection_None:
  "\<forall>t \<in> set tasks. \<forall>e. task_state t \<noteq> Rejected e \<Longrightarrow> first_rejection tasks = None"
  by (induction tasks) (auto split: promise_state.splits)

lemma first_rejection_Some:
  "first_rejection tasks = Some e \<Longrightarrow> \<exists>t \<in> set tasks. task_state t = Rejected e"
  by (induction tasks) (auto split: promise_state.splits)

lemma run_batch_cases:
  assumes "run_batch sched cfg c tableName attrs ks batch step w = (r, step1, w2)"
  obtains
    (rejected) tasks e where
      "start_all cfg c tableName attrs ks batch w = (tasks, w2)"
      "first_rejection tasks = Some e" "r = Inl e" "step1 = step"
  | (settled) tasks w1 settled where
      "start_all cfg c tableName attrs ks batch w = (tasks, w1)"
      "first_rejection tasks = None"
      "drain sched cfg c tableName tasks step w1 = (settled, step1, w2)"
      "r = Inr (map batch_result settled)"
  using assms by (auto simp: run_batch_def split: prod.splits option.splits)

lemma run_batch_length:
  fixes c :: "('s, 'r, 'k, 'm) client" and w :: "('s, 'k, 'm) world"
  assumes "run_batch sched cfg c tableName attrs ks batch step w = (Inr rs, step1, w2)"
  shows "length rs = length batch"
  using assms
proof (cases rule: run_batch_cases)
  case (rejected tasks e)
  then show ?thesis by simp
next
  case (settled tasks w1 settled)
  from drain_shape [OF settled(3)] have "length settled = length tasks"
    by simp
  moreover from start_all_shape [OF settled(1)] have "length tasks = length batch"
    by (metis length_map)
  ultimately show ?thesis
    using settled(4) by simp
qed


lemma run_batch_returns:
  fixes c :: "('s, 'r, 'k, 'm) client" and w :: "('s, 'k, 'm) world"
  assumes n: "\<forall>item \<in> set batch. \<exists>ue. createUpdateExpression attrs item = Inr ue"
  shows "\<exists>rs step1 w2. run_batch sched cfg c tableName attrs ks batch step w = (Inr rs, step1, w2)"
proof -
  obtain tasks w1 where s: "start_all cfg c tableName attrs ks batch w = (tasks, w1)"
    by (cases "start_all cfg c tableName attrs ks batch w")
  from start_all_state [OF s n] have "first_rejection tasks = None"
    by (rule first_rejection_None)
  with s show ?thesis
    by (auto simp: run_batch_def split: prod.splits)
qed










lemma count_results_sum:
  "successCount (count_results cs rs) + errorCount (count_results cs rs) =
   successCount cs + errorCount cs + length rs"
  unfolding count_results_def
  by (induction rs arbitrary: cs) simp_all


lemma batch_loop_done:
  "\<not> k < length batches \<Longrightarrow>
   batch_loop sched cfg c tableName attrs ks batches k cs step w = (Inr cs, w)"
  by (subst batch_loop.simps) simp

lemma batch_loop_throw:
  "k < length batches \<Longrightarrow>
   run_batch sched cfg c tableName attrs ks (batches ! k) step w = (Inl e, step1, w1) \<Longrightarrow>
   batch_loop sched cfg c tableName attrs ks batches k cs step w = (Inl e, w1)"
  by (subst batch_loop.simps) simp

lemma batch_loop_step:
  "k < length batches \<Longrightarrow>
   run_batch sched cfg c tableName attrs ks (batches ! k) step w = (Inr rs, step1, w1) \<Longrightarrow>
   batch_loop sched cfg c tableName attrs ks batches k cs step w =
   batch_loop sched cfg c tableName attrs ks batches (k + 1) (count_results cs rs) step1
     (if int k < int (length batches) - 1 then delay 200 w1 else w1)"
  by (subst batch_loop.simps) (simp add: Let_def)

lemma batch_loop_cases:
  obtains
    (over) "\<not> k < length batches"
  | (throw) e step1 w1 where "k < length batches"
      "run_batch sched cfg c tableName attrs ks (batches ! k) step w = (Inl e, step1, w1)"
  | (step) rs step1 w1 where "k < length batches"
      "run_batch sched cfg c tableName attrs ks (batches ! k) step w = (Inr rs, step1, w1)"
proof (cases "k < length batches")
  case False
  then show ?thesis by (rule over)
next
  case True
  obtain r step1 w1 where
    r: "run_batch sched cfg c tableName attrs ks (batches ! k) step w = (r, step1, w1)"
    by (cases "run_batch sched cfg c tableName attrs ks (batches ! k) step w")
  show ?thesis
  proof (cases r)
    case (Inl e)
    with True r show ?thesis by (auto intro: throw)
  next
    case (Inr rs)
    with True r show ?thesis by (auto intro: step)
  qed
qed

lemma batch_loop_counts:
  fixes c :: "('s, 'r, 'k, 'm) client" and w :: "('s, 'k, 'm) world"
  shows "batch_loop sched cfg c tableName attrs ks batches k cs step w = (Inr cs', w') \<Longrightarrow>
   successCount cs' + errorCount cs' =
   successCount cs + errorCount cs + length (concat (drop k batches))"
proof (induction "length batches - k" arbitrary: k cs step w rule: less_induct)
  case less
  show ?case
  proof (cases rule: batch_loop_cases [where k = k and batches = batches and sched = sched
      and cfg = cfg and c = c and tableName = tableName and attrs = attrs and ks = ks
      and step = step and w = w])
    case over
    with less.prems show ?thesis
      by (simp add: batch_loop_done)
  next
    case (throw e step1 w1)
    with less.prems show ?thesis
      by (simp add: batch_loop_throw)
  next
    case (step rs step1 w1)
    let ?w2 = "if int k < int (length batches) - 1 then delay 200 w1 else w1"
    have m: "length batches - (k + 1) < length batches - k"
      using step(1) by simp
    from less.prems have "batch_loop sched cfg c tableName attrs ks batches (k + 1)
        (count_results cs rs) step1 ?w2 = (Inr cs', w')"
      by (simp only: batch_loop_step [OF step])
    from less.hyps [OF m this] have "successCount cs' + errorCount cs' =
        successCount (count_results cs rs) + errorCount (count_results cs rs) +
        length (concat (drop (k + 1) batches))" .
    moreover have "drop k batches = batches ! k # drop (k + 1) batches"
      using step(1) by (simp add: Cons_nth_drop_Suc)
    moreover from run_batch_length [OF step(2)] have "length rs = length (batches ! k)" .
    ultimately show ?thesis
      by (simp add: count_results_sum)
  qed
qed

lemma batch_loop_returns:
  fixes c :: "('s, 'r, 'k, 'm) client" and w :: "('s, 'k, 'm) world"
  assumes n: "\<forall>item \<in> set (concat batches). \<exists>ue. createUpdateExpression attrs item = Inr ue"
  shows "\<exists>cs' w'. batch_loop sched cfg c tableName attrs ks batches k cs step w = (Inr cs', w')"
proof (induction "length batches - k" arbitrary: k cs step w rule: less_induct)
  case less
  show ?case
  proof (cases rule: batch_loop_cases [where k = k and batches = batches and sched = sched
      and cfg = cfg and c = c and tableName = tableName and attrs = attrs and ks = ks
      and step = step and w = w])
    case over
    then show ?thesis
      by (simp add: batch_loop_done)
  next
    case (throw e step1 w1)
    from throw(1) have "batches ! k \<in> set batches"
      by simp
    then have "set (batches ! k) \<subseteq> set (concat batches)"
      by auto
    with n have "\<forall>item \<in> set (batches ! k). \<exists>ue. createUpdateExpression attrs item = Inr ue"
      by blast
    from run_batch_returns [OF this, of sched cfg c tableName ks step w] throw(2)
    show ?thesis by simp
  next
    case (step rs step1 w1)
    have m: "length batches - (k + 1) < length batches - k"
      using step(1) by simp
    from less.hyps [OF m] show ?thesis
      by (simp only: batch_loop_step [OF step])
  qed
qed





subsection \<open>Counting\<close>

lemma make_batches_diverges_aux:
  assumes "make_batches B items i acc = Some y"
  shows "\<not> (B \<le> 0 \<and> i \<le> 0 \<and> items \<noteq> [])"
proof (rule make_batches.raw_induct
    [where P = "\<lambda>B items i acc y. \<not> (B \<le> 0 \<and> i \<le> 0 \<and> items \<noteq> [])", OF _ assms])
  fix f :: "int \<Rightarrow> 'a list \<Rightarrow> int \<Rightarrow> 'a list list \<Rightarrow> 'a list list option"
  fix B items i acc y
  assume ih: "\<And>B items i acc y. f B items i acc = Some y \<Longrightarrow>
      \<not> (B \<le> 0 \<and> i \<le> 0 \<and> items \<noteq> [])"
    and eq: "(if i < int (length items)
        then f B items (i + B) (acc @ [slice items i (i + B)]) else Some acc) = Some y"
  show "\<not> (B \<le> 0 \<and> i \<le> 0 \<and> items \<noteq> [])"
  proof
    assume a: "B \<le> 0 \<and> i \<le> 0 \<and> items \<noteq> []"
    then have "0 < int (length items)" by simp
    with a have "i < int (length items)" by linarith
    with eq have "f B items (i + B) (acc @ [slice items i (i + B)]) = Some y"
      by simp
    from ih [OF this] a show False by simp
  qed
qed

lemma make_batches_concat:
  assumes "make_batches B items 0 [] = Some batches"
  shows "concat batches = items"
proof (cases "0 < B")
  case True
  with assms have "batches = chunks (nat B) items"
    by (simp add: make_batches_eq_chunks)
  with True show ?thesis
    by (simp add: concat_chunks)
next
  case False
  with make_batches_diverges_aux [OF assms] have "items = []"
    by simp
  with assms show ?thesis
    by (subst (asm) make_batches.simps) auto
qed

lemma filtered_items_selected:
  assumes "filterItemsWithAttributes allItems attrs = Inr items"
  shows "items = filter (\<lambda>r. field_names r \<inter> set attrs \<noteq> {}) allItems"
  using filter_returned [OF assms] by simp

lemma filtered_items_update:
  assumes "filterItemsWithAttributes allItems attrs = Inr items"
  shows "\<forall>item \<in> set items. \<exists>ue. createUpdateExpression attrs item = Inr ue"
proof
  fix item
  assume "item \<in> set items"
  with filtered_items_selected [OF assms] have "item \<in> set allItems"
    by simp
  moreover from filter_returned [OF assms]
  have "attrs = [] \<or> (\<forall>r \<in> set allItems. ''hasOwnProperty'' \<notin> field_names r)"
    by simp
  ultimately have "attrs = [] \<or> ''hasOwnProperty'' \<notin> field_names item"
    by blast
  from createUpdateExpression_eq [OF this] show "\<exists>ue. createUpdateExpression attrs item = Inr ue"
    by blast
qed

lemma processItemsInBatches_cases:
  assumes "processItemsInBatches sched cfg c items tableName attrs ks w = Some (r, w')"
  obtains batches where
    "make_batches (BATCH_SIZE cfg) items 0 [] = Some batches" "concat batches = items"
    "batch_loop sched cfg c tableName attrs ks batches 0
       \<lparr>successCount = 0, errorCount = 0\<rparr> 0 w = (r, w')"
  using assms make_batches_concat [of "BATCH_SIZE cfg" items]
  by (auto simp: processItemsInBatches_def split: option.splits)

lemma processItemsInBatches_sum:
  fixes c :: "('s, 'r, 'k, 'm) client" and w :: "('s, 'k, 'm) world"
  assumes "processItemsInBatches sched cfg c items tableName attrs ks w = Some (Inr cs, w')"
  shows "successCount cs + errorCount cs = length items"
  using assms
proof (cases rule: processItemsInBatches_cases)
  case (1 batches)
  from batch_loop_counts [OF 1(3)] 1(2) show ?thesis
    by simp
qed

lemma processItemsInBatches_returns:
  fixes c :: "('s, 'r, 'k, 'm) client" and w :: "('s, 'k, 'm) world"
  assumes B: "0 < BATCH_SIZE cfg"
    and n: "\<forall>item \<in> set items. \<exists>ue. createUpdateExpression attrs item = Inr ue"
  shows "\<exists>cs w'. processItemsInBatches sched cfg c items tableName attrs ks w = Some (Inr cs, w')"
proof -
  let ?bs = "chunks (nat (BATCH_SIZE cfg)) items"
  have b: "make_batches (BATCH_SIZE cfg) items 0 [] = Some ?bs"
    using B by (rule make_batches_eq_chunks)
  have "concat ?bs = items"
    using B by (simp add: concat_chunks)
  with n have "\<forall>item \<in> set (concat ?bs). \<exists>ue. createUpdateExpression attrs item = Inr ue"
    by simp
  from batch_loop_returns [OF this, of sched cfg c tableName ks 0
      "\<lparr>successCount = 0, errorCount = 0\<rparr>" 0 w] b
  show ?thesis
    by (simp add: processItemsInBatches_def)
qed




text \<open>
  C1. Whenever \<^verbatim>\<open>processItemsInBatches\<close> returns its two counters, they add up to the
  number of items it was given, under every schedule. The items \<^verbatim>\<open>main\<close> gives it are
  the result of \<^verbatim>\<open>filterItemsWithAttributes\<close> on the scanned items (lines 237 and 249).
  When that call returns, the pending changes are the scanned items that have a field to
  remove, in the order of the scan: they are among the scanned items and no more numerous;
  and with a positive batch size \<^verbatim>\<open>processItemsInBatches\<close> returns counters for them, which
  add up to their number.
\<close>

theorem processItemsInBatches_counts:
  fixes c :: "('s, 'r, 'k, 'm) client" and w :: "('s, 'k, 'm) world"
  shows
  "(\<forall>cs w'. processItemsInBatches sched cfg c items tableName attrs ks w = Some (Inr cs, w') \<longrightarrow>
      successCount cs + errorCount cs = length items) \<and>
   (filterItemsWithAttributes allItems attrs = Inr items \<longrightarrow>
      items = filter (\<lambda>r. field_names r \<inter> set attrs \<noteq> {}) allItems \<and>
      set items \<subseteq> set allItems \<and> subseq items allItems \<and>
      length items \<le> length allItems \<and>
      (0 < BATCH_SIZE cfg \<longrightarrow>
         (\<exists>cs w'. processItemsInBatches sched cfg c items tableName attrs ks w =
              Some (Inr cs, w') \<and>
            successCount cs + errorCount cs = length items)))"
proof (intro conjI allI impI)
  fix cs w'
  assume "processItemsInBatches sched cfg c items tableName attrs ks w = Some (Inr cs, w')"
  then show "successCount cs + errorCount cs = length items"
    by (rule processItemsInBatches_sum)
next
  assume f: "filterItemsWithAttributes allItems attrs = Inr items"
  from filtered_items_selected [OF f]
  show i: "items = filter (\<lambda>r. field_names r \<inter> set attrs \<noteq> {}) allItems" .
  show "set items \<subseteq> set allItems"
    unfolding i by simp
  show "subseq items allItems"
    unfolding i by simp
  show "length items \<le> length allItems"
    unfolding i by simp
  assume B: "0 < BATCH_SIZE cfg"
  from processItemsInBatches_returns [OF B filtered_items_update [OF f]] obtain cs w' where
    r: "processItemsInBatches sched cfg c items tableName attrs ks w = Some (Inr cs, w')"
    by blast
  from processItemsInBatches_sum [OF r] r
  show "\<exists>cs w'. processItemsInBatches sched cfg c items tableName attrs ks w =
      Some (Inr cs, w') \<and> successCount cs + errorCount cs = length items"
    by blast
qed


lemma batch_of_two:
  "make_batches (BATCH_SIZE two_per_batch) [record1, record3] 0 [] = Some [[record1, record3]]"
proof -
  have "make_batches 2 [record1, record3] 0 [] =
      make_batches 2 [record1, record3] 2 [[record1, record3]]"
    by (subst make_batches.simps) (simp add: slice_def)
  also have "\<dots> = Some [[record1, record3]]"
    by (subst make_batches.simps) simp
  finally show ?thesis
    by (simp add: two_per_batch_def)
qed

lemma update_of_record1: "createUpdateExpression [''old''] record1 = Inr (Some remove_old)"
  by (simp add: createUpdateExpression_def hasOwnProperty_def record1_def placeholder_def
      string_of_nat_small digit_def remove_old_def)

lemma update_of_record3: "createUpdateExpression [''old''] record3 = Inr (Some remove_old)"
  by (simp add: createUpdateExpression_def hasOwnProperty_def record3_def placeholder_def
      string_of_nat_small digit_def remove_old_def)

lemma key_of_record1: "item_key id_schema record1 = key1"
  by (simp add: item_key_def id_schema_def record1_def get_prop_def key1_def)

lemma key_of_record3: "item_key id_schema record3 = key3"
  by (simp add: item_key_def id_schema_def record3_def get_prop_def key3_def)

lemma start_two_throttled:
  "start_all two_per_batch (throttle_first (Suc (Suc 0))) ''devices'' [''old''] id_schema
     [record1, record3] start =
   ([\<lparr>task_key = key1, task_update = Some remove_old,
      task_state = Waiting 0 (Inl (Error ''ThrottlingException'' ''Rate exceeded''))\<rparr>,
     \<lparr>task_key = key3, task_update = Some remove_old,
      task_state = Waiting 0 (Inl (Error ''ThrottlingException'' ''Rate exceeded''))\<rparr>],
    \<lparr>ext = Suc (Suc 0), trace = [UpdateSent update1, UpdateSent update3]\<rparr>)"
  by (simp add: start_item_def update_of_record1 update_of_record3 key_of_record1 key_of_record3
      begin_attempt_def two_per_batch_def throttle_first_def sendUpdate_def start_def
      update1_def update3_def)


lemma filter_three_records:
  "filterItemsWithAttributes [record1, record2, record3] [''old''] = Inr [record1, record3]"
  by (simp add: filterItemsWithAttributes_def hasOwnProperty_def record1_def record2_def
      record3_def)

lemma drain_two_throttled:
  "drain in_turn two_per_batch (throttle_first (Suc (Suc 0))) ''devices''
     [\<lparr>task_key = key1, task_update = Some remove_old,
       task_state = Waiting 0 (Inl (Error ''ThrottlingException'' ''Rate exceeded''))\<rparr>,
      \<lparr>task_key = key3, task_update = Some remove_old,
       task_state = Waiting 0 (Inl (Error ''ThrottlingException'' ''Rate exceeded''))\<rparr>]
     0 \<lparr>ext = Suc (Suc 0), trace = [UpdateSent update1, UpdateSent update3]\<rparr> =
   ([\<lparr>task_key = key1, task_update = Some remove_old, task_state = Resolved True\<rparr>,
     \<lparr>task_key = key3, task_update = Some remove_old, task_state = Resolved True\<rparr>],
    6,
    \<lparr>ext = 4,
     trace = [UpdateSent update1, UpdateSent update3, Delay 600, Delay 600,
              UpdateSent update1, UpdateSent update3]\<rparr>)"
  by (simp add: drain.simps pending_def pick_def in_turn_def advance_def resume_def
      catch_update_def begin_attempt_def isThrottle_def Math_random_def delay_def
      calculateBackoffDelay_def two_per_batch_def throttle_first_def sendUpdate_def
      update1_def update3_def upt_rec mod_Suc)


lemma two_retried:
  "processItemsInBatches in_turn two_per_batch (throttle_first (Suc (Suc 0))) [record1, record3]
     ''devices'' [''old''] id_schema start =
   Some (Inr \<lparr>successCount = Suc (Suc 0), errorCount = 0\<rparr>,
         \<lparr>ext = 4,
          trace = [UpdateSent update1, UpdateSent update3, Delay 600, Delay 600,
                   UpdateSent update1, UpdateSent update3]\<rparr>)"
proof -
  have r: "run_batch in_turn two_per_batch (throttle_first (Suc (Suc 0))) ''devices'' [''old'']
      id_schema ([[record1, record3]] ! 0) 0 start =
      (Inr [True, True], 6,
       \<lparr>ext = 4,
        trace = [UpdateSent update1, UpdateSent update3, Delay 600, Delay 600,
                 UpdateSent update1, UpdateSent update3]\<rparr>)"
    by (simp only: run_batch_def nth_Cons_0 start_two_throttled)
      (simp add: drain_two_throttled batch_result_def)
  have "batch_loop in_turn two_per_batch (throttle_first (Suc (Suc 0))) ''devices'' [''old'']
      id_schema [[record1, record3]] 0 \<lparr>successCount = 0, errorCount = 0\<rparr> 0 start =
      batch_loop in_turn two_per_batch (throttle_first (Suc (Suc 0))) ''devices'' [''old'']
        id_schema [[record1, record3]] (Suc 0) \<lparr>successCount = Suc (Suc 0), errorCount = 0\<rparr> 6
        \<lparr>ext = 4,
         trace = [UpdateSent update1, UpdateSent update3, Delay 600, Delay 600,
                  UpdateSent update1, UpdateSent update3]\<rparr>"
    using batch_loop_step [OF _ r, of "\<lparr>successCount = 0, errorCount = 0\<rparr>"]
    by (simp add: count_results_def)
  also have "\<dots> = (Inr \<lparr>successCount = Suc (Suc 0), errorCount = 0\<rparr>,
      \<lparr>ext = 4,
       trace = [UpdateSent update1, UpdateSent update3, Delay 600, Delay 600,
                UpdateSent update1, UpdateSent update3]\<rparr>)"
    by (simp add: batch_loop_done)
  finally show ?thesis
    by (simp add: processItemsInBatches_def batch_of_two)
qed

text \<open>
  Two of the three records need the update. Both are in one batch, against a store that
  throttles the first two requests: the first request of each record is sent before either
  is retried, both are throttled, and both retries succeed.
\<close>

theorem processItemsInBatches_counts_witness:
  "filterItemsWithAttributes [record1, record2, record3] [''old''] = Inr [record1, record3] \<and>
   processItemsInBatches in_turn two_per_batch (throttle_first 2) [record1, record3]
     ''devices'' [''old''] id_schema start =
   Some (Inr \<lparr>successCount = 2, errorCount = 0\<rparr>,
         \<lparr>ext = 4,
          trace = [UpdateSent update1, UpdateSent update3, Delay 600, Delay 600,
                   UpdateSent update1, UpdateSent update3]\<rparr>) \<and>
   successCount \<lparr>successCount = 2, errorCount = 0\<rparr> +
     errorCount \<lparr>successCount = 2, errorCount = 0\<rparr> = length [record1, record3] \<and>
   set [record1, record3] \<subseteq> set [record1, record2, record3] \<and>
   length [record1, record3] \<le> length [record1, record2, record3]"
proof -
  let ?cs = "\<lparr>successCount = 2, errorCount = 0\<rparr>"
  let ?w = "\<lparr>ext = 4,
      trace = [UpdateSent update1, UpdateSent update3, Delay 600, Delay 600,
               UpdateSent update1, UpdateSent update3]\<rparr> :: (nat, nat, js_object) world"
  note inst = processItemsInBatches_counts [of in_turn two_per_batch "throttle_first 2"
      "[record1, record3]" "''devices''" "[''old'']" id_schema start
      "[record1, record2, record3]"]
  have f: "filterItemsWithAttributes [record1, record2, record3] [''old''] =
      Inr [record1, record3]"
    by (rule filter_three_records)
  have e: "processItemsInBatches in_turn two_per_batch (throttle_first 2) [record1, record3]
      ''devices'' [''old''] id_schema start = Some (Inr ?cs, ?w)"
    using two_retried by (simp add: numeral_2_eq_2)
  from inst e have "successCount ?cs + errorCount ?cs = length [record1, record3]"
    by blast
  moreover from inst f have "set [record1, record3] \<subseteq> set [record1, record2, record3]"
    by blast
  moreover from inst f have "length [record1, record3] \<le> length [record1, record2, record3]"
    by blast
  ultimately show ?thesis
    using e f by blast
qed


section \<open>Failures of single records\<close>


text \<open>The scenario evaluated: a store that throttles every update.\<close>

lemma retries_exhausted:
  "updateItemWithRetry two_per_batch always_throttled ''devices'' key1 (Some remove_old) 2 start =
     (Inr False, \<lparr>ext = 2, trace = [UpdateSent update1, Delay 600, UpdateSent update1]\<rparr>)"
  by (simp add: updateItemWithRetry_def updateItemWithRetry_loop.simps try_update_def
      sendUpdate_def always_throttled_def isThrottle_def Math_random_def delay_def start_def
      calculateBackoffDelay_def two_per_batch_def update1_def)






section \<open>Batches of one item, and rejected promises\<close>

lemma pending_single: "pending [t] = (if is_pending (task_state t) then [0] else [])"
  by (simp add: pending_def)

lemma drain_single_done:
  "\<not> is_pending (task_state t) \<Longrightarrow> drain sched cfg c tableName [t] step w = ([t], step, w)"
  by (simp add: drain_done pending_single)

lemma drain_single_step:
  assumes "is_pending (task_state t)"
    and "resume cfg c tableName (task_key t) (task_update t) (MAX_RETRIES cfg) (task_state t) w =
      (st, w1)"
  shows "drain sched cfg c tableName [t] step w =
     drain sched cfg c tableName [t\<lparr>task_state := st\<rparr>] (step + 1) w1"
proof -
  from assms(1) have p: "pending [t] \<noteq> []" and i: "pick sched step (pending [t]) = 0"
    by (simp_all add: pending_single pick_def)
  from assms(2) have "advance cfg c tableName [t] (pick sched step (pending [t])) w =
      ([t\<lparr>task_state := st\<rparr>], w1)"
    unfolding i by (simp add: advance_def)
  from drain_step [OF p this] show ?thesis .
qed

lemma single_promise_agrees:
  fixes c :: "('s, 'r, 'k, 'm) client" and w :: "('s, 'k, 'm) world"
  assumes "begin_attempt cfg c tableName key ue (MAX_RETRIES cfg) a w = (st, w1)"
  shows "\<exists>b step' w'.
     updateItemWithRetry_loop cfg c tableName key ue (MAX_RETRIES cfg) a w = (Inr b, w') \<and>
     drain sched cfg c tableName [\<lparr>task_key = key, task_update = ue, task_state = st\<rparr>] step w1 =
       ([\<lparr>task_key = key, task_update = ue, task_state = Resolved b\<rparr>], step', w')"
  using assms
proof (induction "nat (MAX_RETRIES cfg - int a)" arbitrary: a w st w1 step rule: less_induct)
  case less
  let ?M = "MAX_RETRIES cfg"
  let ?T = "\<lambda>st. \<lparr>task_key = key, task_update = ue, task_state = st\<rparr>"
  let ?loop = "updateItemWithRetry_loop cfg c tableName key ue ?M"
  let ?drain = "drain sched cfg c tableName"
  note b = less.prems
  have handler: "\<exists>b step' w'. ?loop a w = (Inr b, w') \<and>
      ?drain [?T st0] step0 w2 = ([?T (Resolved b)], step', w')"
    if lt: "int a < ?M" and t: "try_update c tableName key ue w = (Inl e, w0)"
      and cu: "catch_update cfg c ?M a e w0 = (st0, w2)" for e w0 st0 w2 step0
  proof (cases "isThrottle e \<and> int a < ?M - 1")
    case True
    obtain rnd w3 where rn: "Math_random c w0 = (rnd, w3)"
      by (cases "Math_random c w0")
    let ?w4 = "delay (calculateBackoffDelay rnd a (real_of_int (INITIAL_DELAY cfg))) w3"
    from cu True rn have s: "st0 = Sleeping a" "w2 = ?w4"
      by (simp_all add: catch_update_def Let_def)
    from True have "int a < ?M - 1" "isThrottle e"
      by simp_all
    from loop_retry [OF this(1) t this(2) rn] have l: "?loop a w = ?loop (a + 1) ?w4" .
    obtain st5 w5 where ba: "begin_attempt cfg c tableName key ue ?M (a + 1) ?w4 = (st5, w5)"
      by (cases "begin_attempt cfg c tableName key ue ?M (a + 1) ?w4")
    have m: "nat (?M - int (a + 1)) < nat (?M - int a)"
      using lt by simp
    from less.hyps [OF m ba, of "step0 + 1"] obtain b step' w' where
      ih: "?loop (a + 1) ?w4 = (Inr b, w')"
        "?drain [?T st5] (step0 + 1) w5 = ([?T (Resolved b)], step', w')"
      by blast
    have "?drain [?T (Sleeping a)] step0 ?w4 = ?drain [?T st5] (step0 + 1) w5"
      using drain_single_step [of "?T (Sleeping a)" cfg c tableName ?w4 st5 w5 sched step0] ba
      by (simp add: resume_def)
    with ih l s show ?thesis
      by simp
  next
    case False
    with cu have s: "st0 = Resolved False" "w2 = w0"
      by (auto simp: catch_update_def)
    from False have "\<not> isThrottle e \<or> ?M - 1 \<le> int a"
      by auto
    from loop_fail [OF lt t this] have "?loop a w = (Inr False, w0)" .
    with s show ?thesis
      by (auto simp: drain_single_done)
  qed
  show ?case
  proof (cases "int a < ?M")
    case False
    with b have "st = Resolved False" "w1 = w"
      by (auto simp: begin_attempt_def)
    with False show ?thesis
      by (auto simp: loop_exit drain_single_done)
  next
    case True
    show ?thesis
    proof (cases "marshall c key")
      case (Inl e)
      with b True have cu: "catch_update cfg c ?M a e w = (st, w1)"
        by (simp add: begin_attempt_def)
      from Inl have t: "try_update c tableName key ue w = (Inl e, w)"
        by (simp add: try_update_def)
      from handler [OF True t cu] show ?thesis .
    next
      case (Inr k)
      let ?p = "\<lparr>update_TableName = tableName, Key = k, update_spread = ue,
                 ReturnValues = ''NONE''\<rparr>"
      obtain outcome w0 where su: "sendUpdate c ?p w = (outcome, w0)"
        by (cases "sendUpdate c ?p w")
      with b True Inr have s: "st = Waiting a outcome" "w1 = w0"
        by (auto simp: begin_attempt_def)
      from Inr su have t: "try_update c tableName key ue w = (outcome, w0)"
        by (simp add: try_update_def)
      show ?thesis
      proof (cases outcome)
        case (Inr u)
        with t have "try_update c tableName key ue w = (Inr u, w0)"
          by simp
        from loop_success [OF True this] have "?loop a w = (Inr True, w0)" .
        moreover have "?drain [?T (Waiting a (Inr u))] step w0 =
            ?drain [?T (Resolved True)] (step + 1) w0"
          using drain_single_step [of "?T (Waiting a (Inr u))" cfg c tableName w0
              "Resolved True" w0 sched step]
          by (simp add: resume_def)
        ultimately show ?thesis
          using s Inr by (auto simp: drain_single_done)
      next
        case (Inl e)
        obtain st0 w2 where cu: "catch_update cfg c ?M a e w0 = (st0, w2)"
          by (cases "catch_update cfg c ?M a e w0")
        from t Inl have "try_update c tableName key ue w = (Inl e, w0)"
          by simp
        from handler [OF True this cu, of "step + 1"] obtain b step' w' where
          h: "?loop a w = (Inr b, w')"
            "?drain [?T st0] (step + 1) w2 = ([?T (Resolved b)], step', w')"
          by blast
        have "?drain [?T (Waiting a (Inl e))] step w0 = ?drain [?T st0] (step + 1) w2"
          using drain_single_step [of "?T (Waiting a (Inl e))" cfg c tableName w0 st0 w2
              sched step] cu
          by (simp add: resume_def)
        with h s Inl show ?thesis
          by simp
      qed
    qed
  qed
qed


text \<open>
  X6. A batch of one item, under every schedule: when \<^verbatim>\<open>createUpdateExpression\<close> returns,
  the result of the batch and the requests and sleeps it makes are those of one call of
  \<^verbatim>\<open>updateItemWithRetry\<close> with the key of the item and the default \<^verbatim>\<open>maxRetries\<close>.
\<close>

theorem run_batch_single_item:
  fixes c :: "('s, 'r, 'k, 'm) client" and w :: "('s, 'k, 'm) world"
  assumes u: "createUpdateExpression attrs item = Inr ue"
  shows "\<exists>b step' w'.
     updateItemWithRetry cfg c tableName (item_key ks item) ue (MAX_RETRIES cfg) w = (Inr b, w') \<and>
     run_batch sched cfg c tableName attrs ks [item] step w = (Inr [b], step', w')"
proof -
  let ?key = "item_key ks item"
  obtain st w1 where b: "begin_attempt cfg c tableName ?key ue (MAX_RETRIES cfg) 0 w = (st, w1)"
    by (cases "begin_attempt cfg c tableName ?key ue (MAX_RETRIES cfg) 0 w")
  let ?t = "\<lparr>task_key = ?key, task_update = ue, task_state = st\<rparr>"
  from u b have s: "start_all cfg c tableName attrs ks [item] w = ([?t], w1)"
    by (simp add: start_item_def)
  from begin_attempt_state [OF b] have n: "first_rejection [?t] = None"
    by auto
  from single_promise_agrees [OF b, of sched step] obtain b' step' w' where
    l: "updateItemWithRetry_loop cfg c tableName ?key ue (MAX_RETRIES cfg) 0 w = (Inr b', w')"
    and d: "drain sched cfg c tableName [?t] step w1 =
      ([\<lparr>task_key = ?key, task_update = ue, task_state = Resolved b'\<rparr>], step', w')"
    by blast
  from s n d have "run_batch sched cfg c tableName attrs ks [item] step w = (Inr [b'], step', w')"
    by (simp add: run_batch_def batch_result_def)
  with l show ?thesis
    by (auto simp: updateItemWithRetry_def)
qed

text \<open>
  The first record of the example alone in a batch, against the store that throttles every
  update.
\<close>

theorem run_batch_single_item_witness:
  "createUpdateExpression [''old''] record1 = Inr (Some remove_old) \<and>
   (\<exists>step'. run_batch in_turn two_per_batch always_throttled ''devices'' [''old''] id_schema
      [record1] 0 start =
      (Inr [False], step',
       \<lparr>ext = 2, trace = [UpdateSent update1, Delay 600, UpdateSent update1]\<rparr>))"
proof -
  have u: "createUpdateExpression [''old''] record1 = Inr (Some remove_old)"
    by (rule update_of_record1)
  from run_batch_single_item [OF u, of two_per_batch always_throttled "''devices''" id_schema
      start in_turn 0]
  obtain b step' w' where
    l: "updateItemWithRetry two_per_batch always_throttled ''devices'' key1 (Some remove_old) 2
        start = (Inr b, w')"
    and r: "run_batch in_turn two_per_batch always_throttled ''devices'' [''old''] id_schema
        [record1] 0 start = (Inr [b], step', w')"
    by (auto simp: key_of_record1 two_per_batch_def)
  from l retries_exhausted have "b = False"
    "w' = \<lparr>ext = 2, trace = [UpdateSent update1, Delay 600, UpdateSent update1]\<rparr>"
    by simp_all
  with r u show ?thesis
    by blast
qed

text \<open>
  X7. \<^verbatim>\<open>processItemsInBatches\<close> throws when \<^verbatim>\<open>createUpdateExpression\<close> throws for an item
  (line 172 is outside every \<^verbatim>\<open>try\<close>): given the first record of the example and a record
  with a field named \<^verbatim>\<open>hasOwnProperty\<close> in one batch, it calls \<^verbatim>\<open>send\<close> for the first
  record and then throws the \<^verbatim>\<open>TypeError\<close>, under every schedule; no counters are
  returned.
\<close>

theorem processItemsInBatches_rejects:
  "processItemsInBatches sched two_per_batch always_throttled [record1, shadow_record]
     ''devices'' [''old''] id_schema start =
   Some (Inl (Error ''TypeError'' ''item.hasOwnProperty is not a function''),
         \<lparr>ext = 1, trace = [UpdateSent update1]\<rparr>)"
proof -
  have b: "make_batches (BATCH_SIZE two_per_batch) [record1, shadow_record] 0 [] =
      Some [[record1, shadow_record]]"
  proof -
    have "make_batches 2 [record1, shadow_record] 0 [] =
        make_batches 2 [record1, shadow_record] 2 [[record1, shadow_record]]"
      by (subst make_batches.simps) (simp add: slice_def)
    also have "\<dots> = Some [[record1, shadow_record]]"
      by (subst make_batches.simps) simp
    finally show ?thesis
      by (simp add: two_per_batch_def)
  qed
  have s: "createUpdateExpression [''old''] shadow_record =
      Inl (Error ''TypeError'' ''item.hasOwnProperty is not a function'')"
    by (simp add: createUpdateExpression_def hasOwnProperty_def shadow_record_def)
  have "run_batch sched two_per_batch always_throttled ''devices'' [''old''] id_schema
      ([[record1, shadow_record]] ! 0) 0 start =
      (Inl (Error ''TypeError'' ''item.hasOwnProperty is not a function''), 0,
       \<lparr>ext = 1, trace = [UpdateSent update1]\<rparr>)"
    by (simp add: run_batch_def start_item_def update_of_record1 key_of_record1 s
        begin_attempt_def two_per_batch_def always_throttled_def sendUpdate_def start_def
        update1_def)
  from batch_loop_throw [OF _ this, of "\<lparr>successCount = 0, errorCount = 0\<rparr>"] b
  show ?thesis
    by (simp add: processItemsInBatches_def)
qed

subsection \<open>A batch size that is not positive\<close>

text \<open>
  X3. \<^verbatim>\<open>parseInt(process.env.BATCH_SIZE) || 25\<close> accepts a negative number. With a batch
  size that is not positive and at least one item, the grouping loop never ends, and
  \<^verbatim>\<open>processItemsInBatches\<close> never returns.
\<close>

theorem make_batches_negative_size:
  "B \<le> 0 \<Longrightarrow> items \<noteq> [] \<Longrightarrow> make_batches B items 0 [] = None"
proof (rule ccontr)
  assume B: "B \<le> 0" and i: "items \<noteq> []" and n: "make_batches B items 0 [] \<noteq> None"
  then obtain y where "make_batches B items 0 [] = Some y"
    by auto
  from make_batches_diverges_aux [OF this] B i show False
    by simp
qed

text \<open>A batch size of -5 and one record.\<close>

theorem make_batches_negative_size_witness:
  "make_batches (- 5) [record1] 0 [] = None \<and>
   processItemsInBatches in_turn \<lparr>BATCH_SIZE = - 5, MAX_RETRIES = 5, INITIAL_DELAY = 100\<rparr>
     always_throttled [record1] ''devices'' [''old''] id_schema start = None"
proof -
  have "make_batches (- 5) [record1] 0 [] = None"
    using make_batches_negative_size [of "- 5" "[record1]"] by simp
  then show ?thesis
    by (simp add: processItemsInBatches_def)
qed

end
